theory Spec2Isabelle
  imports Main "HOL-Library.Multiset"
begin

section \<open>Pin identifiers and devices\<close>

text \<open>
  Modelled from the spec: the enumeration \<open>Board\<close> is imported by \<open>board.py\<close> from
  \<open>openoligo.hal.types\<close>, which is not among the sources. The spec calls it a closed
  enumeration with one symbolic value per physical header position; the member written
  \<open>Board.P7\<close> in the source is \<open>P 7\<close> here. Which positions the enumeration has, and in
  which order Python iterates over them, is a parameter \<open>board\<close> of the functions that
  walk it.
\<close>

datatype Board = P nat

text \<open>
  Modelled from the spec: the classes \<open>Switch\<close> and \<open>Valve\<close> come from
  \<open>openoligo.hal.devices\<close>, which is not among the sources. The spec describes a tagged
  union over Switch and Valve, each carrying exactly one pin identifier; \<open>board.py\<close>
  reads the pin as \<open>gpio_pin\<close> and tells the variants apart with
  \<open>isinstance(v, Valve)\<close>.
\<close>

datatype Switchable = Switch (gpio_pin: Board) | is_Valve: Valve (gpio_pin: Board)

text \<open>
  Modelled from the spec: the \<open>__eq__\<close> of the device classes is not among the sources.
  The spec defines equality of two devices as equality of the wrapped pin identifier,
  whatever the variant. This is the comparison behind Python's \<open>pin in values\<close>.
\<close>

definition switchable_eq :: "Switchable \<Rightarrow> Switchable \<Rightarrow> bool" where
  "switchable_eq a b \<longleftrightarrow> gpio_pin a = gpio_pin b"

section \<open>Strings and dictionaries\<close>

text \<open>
  \<open>str.lower\<close> is Python's own: the functions that call it take it as the parameter
  \<open>lower\<close>, so what is proved of them holds of whatever \<open>str.lower\<close> does, on every
  name. On a name of ASCII characters \<open>str.lower\<close> replaces the letters \<open>A\<close> to \<open>Z\<close>
  by \<open>a\<close> to \<open>z\<close> and keeps the rest: that is \<open>ascii_lower\<close>, which the concrete
  examples use, on ASCII names only.
\<close>

definition ascii_lower_char :: "char \<Rightarrow> char" where
  "ascii_lower_char c =
     (let n = (of_char c :: nat) in if 65 \<le> n \<and> n \<le> 90 then char_of (n + 32) else c)"

definition ascii_lower :: "string \<Rightarrow> string" where
  "ascii_lower s = map ascii_lower_char s"

definition startswith_underscore :: "string \<Rightarrow> bool" where
  "startswith_underscore key = (case key of [] \<Rightarrow> False | c # _ \<Rightarrow> c = CHR ''_'')"

text \<open>
  A Python \<open>dict\<close> keeps its keys in insertion order: it is an association list with
  distinct keys. Assigning to a key that is present replaces the value where it stands;
  assigning to a new key appends the pair.
\<close>

type_synonym 'v dict = "(string \<times> 'v) list"

fun setitem :: "'v dict \<Rightarrow> string \<Rightarrow> 'v \<Rightarrow> 'v dict" where
  "setitem [] k v = [(k, v)]"
| "setitem ((k', v') # d) k v =
     (if k' = k then (k, v) # d else (k', v') # setitem d k v)"

definition dict_keys :: "'v dict \<Rightarrow> string list" where
  "dict_keys d = map fst d"

definition dict_values :: "'v dict \<Rightarrow> 'v list" where
  "dict_values d = map snd d"

section \<open>The fixed pinout and the configurable pins\<close>

definition fixed :: "Switchable dict" where
  "fixed =
     [(''waste'', Valve (P 7)),
      (''waste_rxn'', Valve (P 5)),
      (''prod'', Valve (P 8)),
      (''branch'', Valve (P 12)),
      (''rxn_out'', Valve (P 13)),
      (''sol'', Valve (P 3)),
      (''gas'', Valve (P 10)),
      (''pump'', Switch (P 11))]"

text \<open>
  \<open>list_configurable_pins\<close> reads the module's \<open>fixed\<close> map and iterates over \<open>Board\<close>.
  \<open>configurable_pins\<close> is its body with both made explicit.
\<close>

definition configurable_pins :: "Switchable dict \<Rightarrow> Board list \<Rightarrow> Board list" where
  "configurable_pins fx board =
     (let fixed_pins = map gpio_pin (dict_values fx)
      in filter (\<lambda>pin. pin \<notin> set fixed_pins) board)"

definition list_configurable_pins :: "Board list \<Rightarrow> Board list" where
  "list_configurable_pins board = configurable_pins fixed board"

section \<open>The pinout registry\<close>

datatype error =
    ValueError Switchable string string
  | NoSuchPinInPinout string "string list"

text \<open>
  \<open>ValueError pin category sub_category\<close> stands for the message
  \<open>Pin {pin} is used twice in {category}.{sub_category}.\<close>, and
  \<open>NoSuchPinInPinout name names\<close> for
  \<open>Pin {name} not found in pinout. Available pins are: {names}\<close>: each error carries
  exactly the values its message interpolates.
\<close>

record Pinout =
  self_fixed :: "Switchable dict"
  phosphoramidites :: "Switchable dict"
  reactants :: "Switchable dict"
  pinout :: "Switchable dict"

text \<open>An attribute of the instance holds a dictionary of devices or a single device.\<close>

datatype attr = DictAttr "Switchable dict" | DeviceAttr Switchable

definition instance_dict :: "Pinout \<Rightarrow> (string \<times> attr) list" where
  "instance_dict self =
     [(''fixed'', DictAttr (self_fixed self)),
      (''phosphoramidites'', DictAttr (phosphoramidites self)),
      (''reactants'', DictAttr (reactants self)),
      (''_Pinout__pinout'', DictAttr (pinout self))]"

definition add_pinout_safe ::
  "(string \<Rightarrow> string) \<Rightarrow> Switchable dict \<Rightarrow> Switchable \<Rightarrow> string \<Rightarrow> string \<Rightarrow> error + Switchable dict" where
  "add_pinout_safe lower tbl pin category sub_category =
     (if list_ex (switchable_eq pin) (dict_values tbl)
      then Inl (ValueError pin category sub_category)
      else Inr (setitem tbl (lower sub_category) pin))"

text \<open>The inner loop of \<open>init_pinout\<close>, over the items of one dictionary attribute.\<close>

fun add_switchables ::
  "(string \<Rightarrow> string) \<Rightarrow> string \<Rightarrow> Switchable dict \<Rightarrow> Switchable dict \<Rightarrow> error + Switchable dict" where
  "add_switchables lower key [] tbl = Inr tbl"
| "add_switchables lower key ((category, pin) # rest) tbl =
     (case add_pinout_safe lower tbl pin key category of
        Inl e \<Rightarrow> Inl e
      | Inr tbl' \<Rightarrow> add_switchables lower key rest tbl')"

text \<open>The outer loop of \<open>init_pinout\<close>, over the attributes of the instance.\<close>

fun walk_attributes ::
  "(string \<Rightarrow> string) \<Rightarrow> (string \<times> attr) list \<Rightarrow> Switchable dict \<Rightarrow> error + Switchable dict" where
  "walk_attributes lower [] tbl = Inr tbl"
| "walk_attributes lower ((key, switchables) # rest) tbl =
     (if startswith_underscore key then walk_attributes lower rest tbl
      else case switchables of
             DictAttr d \<Rightarrow>
               (case add_switchables lower key d tbl of
                  Inl e \<Rightarrow> Inl e
                | Inr tbl' \<Rightarrow> walk_attributes lower rest tbl')
           | DeviceAttr s \<Rightarrow>
               (case add_pinout_safe lower tbl s ''Pinout'' key of
                  Inl e \<Rightarrow> Inl e
                | Inr tbl' \<Rightarrow> walk_attributes lower rest tbl'))"

definition init_pinout :: "(string \<Rightarrow> string) \<Rightarrow> Pinout \<Rightarrow> error + Pinout" where
  "init_pinout lower self =
     (case walk_attributes lower (instance_dict self) (pinout self) of
        Inl e \<Rightarrow> Inl e
      | Inr tbl \<Rightarrow> Inr (self\<lparr>pinout := tbl\<rparr>))"

text \<open>
  \<open>Pinout.__init__\<close>: a raised \<open>ValueError\<close> leaves the constructor call without a
  value, so the caller holds a registry only in the \<open>Inr\<close> case.
\<close>

definition Pinout_init ::
  "(string \<Rightarrow> string) \<Rightarrow> Switchable dict \<Rightarrow> Switchable dict \<Rightarrow> error + Pinout" where
  "Pinout_init lower phos reac =
     init_pinout lower \<lparr>self_fixed = fixed, phosphoramidites = phos, reactants = reac, pinout = []\<rparr>"

definition pins :: "Pinout \<Rightarrow> Switchable dict" where
  "pins self = pinout self"

definition valves :: "Pinout \<Rightarrow> Switchable dict" where
  "valves self = filter (\<lambda>(k, v). is_Valve v) (pinout self)"

definition get :: "(string \<Rightarrow> string) \<Rightarrow> Pinout \<Rightarrow> string \<Rightarrow> error + Switchable" where
  "get lower self name =
     (case map_of (pinout self) (lower name) of
        Some d \<Rightarrow> Inr d
      | None \<Rightarrow> Inl (NoSuchPinInPinout name (dict_keys (pinout self))))"

section \<open>The entries in processing order\<close>

text \<open>
  The two nested loops of \<open>init_pinout\<close> visit the items of \<open>fixed\<close>, then those of
  \<open>phosphoramidites\<close>, then those of \<open>reactants\<close>. An entry is an item with the name of
  the attribute it came from; \<open>add_entries\<close> is the same walk over the flat list, and
  \<open>lowered\<close> is what the walk would store if nothing were rejected or replaced.
\<close>

type_synonym entry = "string \<times> string \<times> Switchable"

definition tagged :: "string \<Rightarrow> Switchable dict \<Rightarrow> entry list" where
  "tagged key d = map (\<lambda>(n, v). (key, n, v)) d"

definition entries :: "Pinout \<Rightarrow> entry list" where
  "entries self =
     tagged ''fixed'' (self_fixed self) @
     tagged ''phosphoramidites'' (phosphoramidites self) @
     tagged ''reactants'' (reactants self)"

fun add_entries ::
  "(string \<Rightarrow> string) \<Rightarrow> entry list \<Rightarrow> Switchable dict \<Rightarrow> error + Switchable dict" where
  "add_entries lower [] tbl = Inr tbl"
| "add_entries lower ((key, name, pin) # rest) tbl =
     (case add_pinout_safe lower tbl pin key name of
        Inl e \<Rightarrow> Inl e
      | Inr tbl' \<Rightarrow> add_entries lower rest tbl')"

definition lowered :: "(string \<Rightarrow> string) \<Rightarrow> entry list \<Rightarrow> Switchable dict" where
  "lowered lower es = map (\<lambda>(key, name, pin). (lower name, pin)) es"

definition pins_of :: "Switchable dict \<Rightarrow> Board list" where
  "pins_of d = map (gpio_pin \<circ> snd) d"

definition lower_keys :: "(string \<Rightarrow> string) \<Rightarrow> 'v dict \<Rightarrow> 'v dict" where
  "lower_keys lower d = map (\<lambda>(n, v). (lower n, v)) d"

definition input_entries :: "Switchable dict \<Rightarrow> Switchable dict \<Rightarrow> entry list" where
  "input_entries phos reac =
     tagged ''fixed'' fixed @ tagged ''phosphoramidites'' phos @ tagged ''reactants'' reac"

section \<open>Dictionary assignment\<close>

lemma map_of_setitem: "map_of (setitem d k v) = (map_of d)(k \<mapsto> v)"
  by (induction d) (auto simp: fun_eq_iff)

lemma setitem_new: "k \<notin> fst ` set d \<Longrightarrow> setitem d k v = d @ [(k, v)]"
  by (induction d) auto

lemma set_keys_setitem: "fst ` set (setitem d k v) = insert k (fst ` set d)"
  by (induction d) (force split: if_splits)+

lemma keys_setitem_old: "k \<in> fst ` set d \<Longrightarrow> map fst (setitem d k v) = map fst d"
  by (induction d) (force split: if_splits)+

lemma keys_setitem:
  "map fst (setitem d k v) = (if k \<in> fst ` set d then map fst d else map fst d @ [k])"
  by (simp add: keys_setitem_old setitem_new)

lemma distinct_keys_setitem:
  "distinct (map fst d) \<Longrightarrow> distinct (map fst (setitem d k v))"
  by (simp add: keys_setitem)

lemma length_setitem:
  "length (setitem d k v) = (if k \<in> fst ` set d then length d else Suc (length d))"
  using arg_cong [OF keys_setitem [of d k v], of length] by (simp split: if_splits)

lemma set_setitem: "set (setitem d k v) \<subseteq> insert (k, v) (set d)"
  by (induction d) (auto split: if_splits)

lemma set_pins_setitem: "set (pins_of (setitem d k v)) \<subseteq> insert (gpio_pin v) (set (pins_of d))"
  using set_setitem [of d k v] by (fastforce simp: pins_of_def)

lemma distinct_pins_setitem:
  "distinct (pins_of d) \<Longrightarrow> gpio_pin v \<notin> set (pins_of d) \<Longrightarrow> distinct (pins_of (setitem d k v))"
proof (induction d)
  case Nil
  then show ?case by (simp add: pins_of_def)
next
  case (Cons a d)
  obtain k' v' where a: "a = (k', v')" by (cases a)
  have sub: "set (pins_of (setitem d k v)) \<subseteq> insert (gpio_pin v) (set (pins_of d))"
    by (rule set_pins_setitem)
  show ?case
  proof (cases "k' = k")
    case True
    with Cons.prems a show ?thesis by (simp add: pins_of_def)
  next
    case False
    from Cons.prems a have "gpio_pin v' \<notin> set (pins_of d)" "gpio_pin v' \<noteq> gpio_pin v"
      by (auto simp: pins_of_def)
    with sub have "gpio_pin v' \<notin> set (pins_of (setitem d k v))" by blast
    moreover from Cons have "distinct (pins_of (setitem d k v))" by (simp add: pins_of_def)
    ultimately show ?thesis using a False by (simp add: pins_of_def)
  qed
qed

lemma pin_taken_iff:
  "list_ex (switchable_eq pin) (dict_values tbl) \<longleftrightarrow> gpio_pin pin \<in> set (pins_of tbl)"
  by (force simp: list_ex_iff switchable_eq_def dict_values_def pins_of_def)

lemma add_pinout_safe_Inr:
  "add_pinout_safe lower tbl pin c n = Inr tbl' \<longleftrightarrow>
     gpio_pin pin \<notin> set (pins_of tbl) \<and> tbl' = setitem tbl (lower n) pin"
  by (auto simp: add_pinout_safe_def pin_taken_iff)

lemma add_pinout_safe_Inl:
  "add_pinout_safe lower tbl pin c n = Inl e \<longleftrightarrow>
     gpio_pin pin \<in> set (pins_of tbl) \<and> e = ValueError pin c n"
  by (auto simp: add_pinout_safe_def pin_taken_iff)

lemma add_switchables_tagged:
  "add_switchables lower key d tbl = add_entries lower (tagged key d) tbl"
  by (induction d arbitrary: tbl) (auto simp: tagged_def split: sum.splits)

lemma add_entries_append:
  "add_entries lower (xs @ ys) tbl =
     (case add_entries lower xs tbl of Inl e \<Rightarrow> Inl e | Inr tbl' \<Rightarrow> add_entries lower ys tbl')"
  by (induction xs arbitrary: tbl) (auto split: sum.splits)

lemma walk_instance_dict:
  "walk_attributes lower (instance_dict self) tbl = add_entries lower (entries self) tbl"
  by (simp add: instance_dict_def entries_def startswith_underscore_def
      add_switchables_tagged add_entries_append split: sum.splits)

lemma init_pinout_entries:
  "init_pinout lower self =
     (case add_entries lower (entries self) (pinout self) of
        Inl e \<Rightarrow> Inl e
      | Inr tbl \<Rightarrow> Inr (self\<lparr>pinout := tbl\<rparr>))"
  by (simp add: init_pinout_def walk_instance_dict)

section \<open>Invariants of the walk\<close>

lemma ascii_lower_char_idem: "ascii_lower_char (ascii_lower_char c) = ascii_lower_char c"
  by (simp add: ascii_lower_char_def Let_def)

lemma ascii_lower_idem: "ascii_lower (ascii_lower s) = ascii_lower s"
  by (simp add: ascii_lower_def ascii_lower_char_idem)

lemma lowered_Cons: "lowered lower ((c, n, v) # es) = (lower n, v) # lowered lower es"
  by (simp add: lowered_def)

lemma lowered_append: "lowered lower (xs @ ys) = lowered lower xs @ lowered lower ys"
  by (simp add: lowered_def)

lemma lowered_keys_lower:
  "\<forall>s. lower (lower s) = lower s \<Longrightarrow> k \<in> fst ` set (lowered lower es) \<Longrightarrow> lower k = k"
  by (auto simp: lowered_def)

lemma pins_of_Cons: "pins_of ((k, v) # d) = gpio_pin v # pins_of d"
  by (simp add: pins_of_def)

lemma pins_of_append: "pins_of (xs @ ys) = pins_of xs @ pins_of ys"
  by (simp add: pins_of_def)

lemma add_entries_keys:
  "add_entries lower es t = Inr t' \<Longrightarrow> fst ` set t' = fst ` set t \<union> fst ` set (lowered lower es)"
proof (induction es arbitrary: t)
  case Nil
  then show ?case by (simp add: lowered_def)
next
  case (Cons e es)
  obtain c n v where e: "e = (c, n, v)" by (cases e)
  from Cons.prems e obtain t1 where t1: "add_pinout_safe lower t v c n = Inr t1"
    and rest: "add_entries lower es t1 = Inr t'"
    by (auto split: sum.splits)
  from t1 have "t1 = setitem t (lower n) v" by (simp add: add_pinout_safe_Inr)
  then have "fst ` set t1 = insert (lower n) (fst ` set t)" by (simp add: set_keys_setitem)
  with Cons.IH [OF rest] e show ?case by (auto simp: lowered_Cons)
qed

lemma add_entries_distinct_keys:
  "add_entries lower es t = Inr t' \<Longrightarrow> distinct (map fst t) \<Longrightarrow> distinct (map fst t')"
proof (induction es arbitrary: t)
  case Nil
  then show ?case by simp
next
  case (Cons e es)
  obtain c n v where e: "e = (c, n, v)" by (cases e)
  from Cons.prems e obtain t1 where t1: "add_pinout_safe lower t v c n = Inr t1"
    and rest: "add_entries lower es t1 = Inr t'"
    by (auto split: sum.splits)
  from t1 Cons.prems(2) have "distinct (map fst t1)"
    by (simp add: add_pinout_safe_Inr distinct_keys_setitem)
  with Cons.IH [OF rest] show ?case .
qed

lemma add_entries_distinct_pins:
  "add_entries lower es t = Inr t' \<Longrightarrow> distinct (pins_of t) \<Longrightarrow> distinct (pins_of t')"
proof (induction es arbitrary: t)
  case Nil
  then show ?case by simp
next
  case (Cons e es)
  obtain c n v where e: "e = (c, n, v)" by (cases e)
  from Cons.prems e obtain t1 where t1: "add_pinout_safe lower t v c n = Inr t1"
    and rest: "add_entries lower es t1 = Inr t'"
    by (auto split: sum.splits)
  from t1 Cons.prems(2) have "distinct (pins_of t1)"
    by (simp add: add_pinout_safe_Inr distinct_pins_setitem)
  with Cons.IH [OF rest] show ?case .
qed

lemma add_entries_pins_subset:
  "add_entries lower es t = Inr t' \<Longrightarrow> set (pins_of t') \<subseteq> set (pins_of t) \<union> set (pins_of (lowered lower es))"
proof (induction es arbitrary: t)
  case Nil
  then show ?case by simp
next
  case (Cons e es)
  obtain c n v where e: "e = (c, n, v)" by (cases e)
  from Cons.prems e obtain t1 where t1: "add_pinout_safe lower t v c n = Inr t1"
    and rest: "add_entries lower es t1 = Inr t'"
    by (auto split: sum.splits)
  from t1 have "set (pins_of t1) \<subseteq> insert (gpio_pin v) (set (pins_of t))"
    by (simp add: add_pinout_safe_Inr set_pins_setitem)
  with Cons.IH [OF rest] e show ?case
    by (auto simp: lowered_Cons pins_of_Cons)
qed

lemma add_entries_map_of:
  "add_entries lower es t = Inr t' \<Longrightarrow> map_of t' = map_of t ++ map_of (rev (lowered lower es))"
proof (induction es arbitrary: t)
  case Nil
  then show ?case by (simp add: lowered_def)
next
  case (Cons e es)
  obtain c n v where e: "e = (c, n, v)" by (cases e)
  from Cons.prems e obtain t1 where t1: "add_pinout_safe lower t v c n = Inr t1"
    and rest: "add_entries lower es t1 = Inr t'"
    by (auto split: sum.splits)
  from t1 have "map_of t1 = (map_of t)(lower n \<mapsto> v)"
    by (simp add: add_pinout_safe_Inr map_of_setitem)
  with Cons.IH [OF rest] e show ?case
    by (simp add: lowered_Cons map_add_upd_left fun_eq_iff map_add_def split: option.splits)
qed

text \<open>With no pin repeated, nothing is rejected.\<close>

lemma add_entries_succeeds:
  "distinct (pins_of (lowered lower es)) \<Longrightarrow> set (pins_of (lowered lower es)) \<inter> set (pins_of t) = {}
     \<Longrightarrow> \<exists>t'. add_entries lower es t = Inr t'"
proof (induction es arbitrary: t)
  case Nil
  then show ?case by simp
next
  case (Cons e es)
  obtain c n v where e: "e = (c, n, v)" by (cases e)
  let ?t1 = "setitem t (lower n) v"
  from Cons.prems e have free: "gpio_pin v \<notin> set (pins_of t)"
    and fresh: "gpio_pin v \<notin> set (pins_of (lowered lower es))"
    and dist: "distinct (pins_of (lowered lower es))"
    and disj: "set (pins_of (lowered lower es)) \<inter> set (pins_of t) = {}"
    by (auto simp: lowered_Cons pins_of_Cons)
  from free have t1: "add_pinout_safe lower t v c n = Inr ?t1" by (simp add: add_pinout_safe_Inr)
  have "set (pins_of ?t1) \<subseteq> insert (gpio_pin v) (set (pins_of t))" by (rule set_pins_setitem)
  with fresh disj have "set (pins_of (lowered lower es)) \<inter> set (pins_of ?t1) = {}"
    by blast
  moreover note dist
  ultimately obtain t' where "add_entries lower es ?t1 = Inr t'" using Cons.IH by blast
  with t1 e show ?case by simp
qed

text \<open>With no lower-cased name repeated, nothing is replaced.\<close>

lemma add_entries_appends:
  "add_entries lower es t = Inr t' \<Longrightarrow> distinct (map fst (lowered lower es))
     \<Longrightarrow> fst ` set (lowered lower es) \<inter> fst ` set t = {} \<Longrightarrow> t' = t @ lowered lower es"
proof (induction es arbitrary: t)
  case Nil
  then show ?case by (simp add: lowered_def)
next
  case (Cons e es)
  obtain c n v where e: "e = (c, n, v)" by (cases e)
  from Cons.prems e obtain t1 where t1: "add_pinout_safe lower t v c n = Inr t1"
    and rest: "add_entries lower es t1 = Inr t'"
    by (auto split: sum.splits)
  from Cons.prems e have new: "lower n \<notin> fst ` set t" by (auto simp: lowered_Cons)
  with t1 have t1_eq: "t1 = t @ [(lower n, v)]"
    by (simp add: add_pinout_safe_Inr setitem_new)
  from Cons.prems e have "distinct (map fst (lowered lower es))"
    and "fst ` set (lowered lower es) \<inter> fst ` set t1 = {}"
    by (auto simp: lowered_Cons t1_eq)
  from Cons.IH [OF rest this] e show ?case by (simp add: t1_eq lowered_Cons)
qed

lemma add_entries_ok_iff:
  assumes "distinct (map fst (lowered lower es))"
  shows "(\<exists>t'. add_entries lower es [] = Inr t') \<longleftrightarrow> distinct (pins_of (lowered lower es))"
proof
  assume "\<exists>t'. add_entries lower es [] = Inr t'"
  then obtain t' where t': "add_entries lower es [] = Inr t'" ..
  from add_entries_appends [OF t' assms] have "t' = lowered lower es" by simp
  moreover from add_entries_distinct_pins [OF t'] have "distinct (pins_of t')"
    by (simp add: pins_of_def)
  ultimately show "distinct (pins_of (lowered lower es))" by simp
next
  assume "distinct (pins_of (lowered lower es))"
  then show "\<exists>t'. add_entries lower es [] = Inr t'"
    by (rule add_entries_succeeds) (simp add: pins_of_def)
qed

lemma lowered_tagged: "lowered lower (tagged key d) = lower_keys lower d"
  by (simp add: lowered_def tagged_def lower_keys_def case_prod_unfold)

lemma lower_keys_append: "lower_keys lower (xs @ ys) = lower_keys lower xs @ lower_keys lower ys"
  by (simp add: lower_keys_def)

lemma lowered_input_entries: "lowered lower (input_entries phos reac) = lower_keys lower (fixed @ phos @ reac)"
  by (simp add: input_entries_def lowered_append lowered_tagged lower_keys_append)

lemma pins_of_lower_keys: "pins_of (lower_keys lower d) = pins_of d"
  by (simp add: pins_of_def lower_keys_def case_prod_unfold)

lemma keys_lower_keys: "map fst (lower_keys lower d) = map lower (dict_keys d)"
  by (simp add: dict_keys_def lower_keys_def case_prod_unfold)

lemma Pinout_init_Inr:
  "Pinout_init lower phos reac = Inr r \<longleftrightarrow>
     add_entries lower (input_entries phos reac) [] = Inr (pinout r) \<and>
     r = \<lparr>self_fixed = fixed, phosphoramidites = phos, reactants = reac, pinout = pinout r\<rparr>"
  by (auto simp: Pinout_init_def init_pinout_entries entries_def input_entries_def
      split: sum.splits)

lemma Pinout_init_Inl:
  "Pinout_init lower phos reac = Inl e \<longleftrightarrow> add_entries lower (input_entries phos reac) [] = Inl e"
  by (auto simp: Pinout_init_def init_pinout_entries entries_def input_entries_def
      split: sum.splits)

lemma count_list_distinct: "distinct xs \<Longrightarrow> x \<in> set xs \<Longrightarrow> count_list xs x = 1"
  by (induction xs) (auto simp: count_list_0_iff)

text \<open>What every constructed registry satisfies.\<close>

lemma registry_facts:
  assumes "Pinout_init lower phos reac = Inr r"
  shows "distinct (pins_of (pins r))"
    and "distinct (dict_keys (pins r))"
    and "set (dict_keys (pins r)) = lower ` set (dict_keys (fixed @ phos @ reac))"
    and "set (pins_of (pins r)) \<subseteq> set (pins_of (fixed @ phos @ reac))"
    and "map_of (pins r) = map_of (rev (lower_keys lower (fixed @ phos @ reac)))"
    and "distinct (map lower (dict_keys (fixed @ phos @ reac)))
           \<Longrightarrow> pins r = lower_keys lower (fixed @ phos @ reac)"
proof -
  from assms have run: "add_entries lower (input_entries phos reac) [] = Inr (pins r)"
    by (simp add: Pinout_init_Inr pins_def)
  show "distinct (pins_of (pins r))"
    using add_entries_distinct_pins [OF run] by (simp add: pins_of_def)
  show "distinct (dict_keys (pins r))"
    using add_entries_distinct_keys [OF run] by (simp add: dict_keys_def)
  show "set (dict_keys (pins r)) = lower ` set (dict_keys (fixed @ phos @ reac))"
  proof -
    have "set (dict_keys (pins r)) = fst ` set (lower_keys lower (fixed @ phos @ reac))"
      using add_entries_keys [OF run] by (simp add: lowered_input_entries dict_keys_def)
    also have "\<dots> = set (map lower (dict_keys (fixed @ phos @ reac)))"
      by (simp only: keys_lower_keys [symmetric] set_map)
    finally show ?thesis by simp
  qed
  show "set (pins_of (pins r)) \<subseteq> set (pins_of (fixed @ phos @ reac))"
    using add_entries_pins_subset [OF run]
    by (simp add: lowered_input_entries pins_of_lower_keys) (simp add: pins_of_def)
  show "map_of (pins r) = map_of (rev (lower_keys lower (fixed @ phos @ reac)))"
    using add_entries_map_of [OF run] by (simp add: lowered_input_entries)
  show "pins r = lower_keys lower (fixed @ phos @ reac)"
    if "distinct (map lower (dict_keys (fixed @ phos @ reac)))"
    using add_entries_appends [OF run] that
    by (simp add: lowered_input_entries keys_lower_keys)
qed

section \<open>The configurable pins\<close>

lemma fixed_pins: "gpio_pin ` set (dict_values fixed) = {P 7, P 5, P 8, P 12, P 13, P 3, P 10, P 11}"
  by (simp add: fixed_def dict_values_def)

text \<open>
  Claim C7. \<open>list_configurable_pins\<close> returns exactly the pins of the board enumeration
  that no device of the fixed map claims: a pin is in the result if and only if it is on
  the board and is not the pin of a fixed device, so none of the eight fixed pins is ever
  in it. The result keeps the enumeration's order, and it is determined by the board
  and the set of fixed pins alone: two fixed maps claiming the same pins give the same
  list, whatever their names and order.
\<close>

theorem list_configurable_pins_complement:
  "set (list_configurable_pins board) = set board - gpio_pin ` set (dict_values fixed)
   \<and> (pin \<in> set (list_configurable_pins board) \<longleftrightarrow>
        pin \<in> set board \<and> \<not> (\<exists>name sw. (name, sw) \<in> set fixed \<and> gpio_pin sw = pin))
   \<and> set (list_configurable_pins board) \<inter> {P 7, P 5, P 8, P 12, P 13, P 3, P 10, P 11} = {}
   \<and> list_configurable_pins board = filter (\<lambda>pin. pin \<notin> gpio_pin ` set (dict_values fixed)) board
   \<and> (gpio_pin ` set (dict_values fx) = gpio_pin ` set (dict_values fx')
        \<longrightarrow> configurable_pins fx board = configurable_pins fx' board)"
proof -
  have a: "set (list_configurable_pins board) = set board - gpio_pin ` set (dict_values fixed)"
    by (auto simp: list_configurable_pins_def configurable_pins_def)
  have b: "gpio_pin ` set (dict_values fixed) = {pin. \<exists>name sw. (name, sw) \<in> set fixed \<and> gpio_pin sw = pin}"
    by (force simp: dict_values_def)
  have c: "list_configurable_pins board = filter (\<lambda>pin. pin \<notin> gpio_pin ` set (dict_values fixed)) board"
    by (simp add: list_configurable_pins_def configurable_pins_def)
  have d: "gpio_pin ` set (dict_values fx) = gpio_pin ` set (dict_values fx')
        \<longrightarrow> configurable_pins fx board = configurable_pins fx' board"
    by (simp add: configurable_pins_def)
  from a b have e: "pin \<in> set (list_configurable_pins board) \<longleftrightarrow>
        pin \<in> set board \<and> \<not> (\<exists>name sw. (name, sw) \<in> set fixed \<and> gpio_pin sw = pin)"
    by blast
  from a have f: "set (list_configurable_pins board) \<inter> {P 7, P 5, P 8, P 12, P 13, P 3, P 10, P 11} = {}"
    unfolding fixed_pins by blast
  from a c d e f show ?thesis by blast
qed

theorem list_configurable_pins_complement_witness:
  "list_configurable_pins [P 3, P 7, P 11, P 20, P 21] = [P 20, P 21]
   \<and> gpio_pin ` set (dict_values (rev fixed)) = gpio_pin ` set (dict_values fixed)
   \<and> configurable_pins (rev fixed) [P 3, P 7, P 11, P 20, P 21] = [P 20, P 21]"
proof -
  have h: "gpio_pin ` set (dict_values (rev fixed)) = gpio_pin ` set (dict_values fixed)"
    by (simp add: dict_values_def)
  have v: "list_configurable_pins [P 3, P 7, P 11, P 20, P 21] = [P 20, P 21]"
    by code_simp
  from list_configurable_pins_complement [of "[P 3, P 7, P 11, P 20, P 21]" "P 20" "rev fixed" fixed] h v
  show ?thesis by (simp add: list_configurable_pins_def)
qed

section \<open>Uniqueness of pins in the registry\<close>

text \<open>
  Claim C1, as stated, fails: a pin of an input device is missing from the table when a
  later entry has the same lower-cased name. Here \<open>A\<close> is bound to pin 20, then \<open>a\<close>
  replaces the binding with pin 21; construction succeeds and pin 20, which an input
  device carries, is in no entry of \<open>pins()\<close>.
\<close>

theorem input_pin_missing_counterexample:
  "Pinout_init ascii_lower [(''A'', Valve (P 20))] [(''a'', Valve (P 21))] =
     Inr \<lparr>self_fixed = fixed,
          phosphoramidites = [(''A'', Valve (P 20))],
          reactants = [(''a'', Valve (P 21))],
          pinout =
            [(''waste'', Valve (P 7)), (''waste_rxn'', Valve (P 5)), (''prod'', Valve (P 8)),
             (''branch'', Valve (P 12)), (''rxn_out'', Valve (P 13)), (''sol'', Valve (P 3)),
             (''gas'', Valve (P 10)), (''pump'', Switch (P 11)), (''a'', Valve (P 21))]\<rparr>
   \<and> P 20 \<in> set (pins_of (fixed @ [(''A'', Valve (P 20))] @ [(''a'', Valve (P 21))]))
   \<and> count_list (pins_of (pins (projr
         (Pinout_init ascii_lower [(''A'', Valve (P 20))] [(''a'', Valve (P 21))])))) (P 20) = 0"
  by code_simp

text \<open>
  Claim C1, amended. For every successful construction, every pin that appears in
  \<open>pins()\<close> appears in exactly one of its entries (no pin is bound to two names), the
  names of the entries are pairwise distinct, and every pin of the table is the pin of an
  input device. When the lower-cased names of the input entries are pairwise distinct,
  every pin of an input device appears in exactly one entry.
\<close>

theorem pinout_pins_unique:
  assumes "Pinout_init lower phos reac = Inr r"
  shows "(\<forall>pin \<in> set (pins_of (pins r)). count_list (pins_of (pins r)) pin = 1)
       \<and> distinct (dict_keys (pins r))
       \<and> set (pins_of (pins r)) \<subseteq> set (pins_of (fixed @ phos @ reac))
       \<and> (distinct (map lower (dict_keys (fixed @ phos @ reac))) \<longrightarrow>
            (\<forall>pin \<in> set (pins_of (fixed @ phos @ reac)).
               count_list (pins_of (pins r)) pin = 1))"
proof -
  note facts = registry_facts [OF assms]
  have one: "\<forall>pin \<in> set (pins_of (pins r)). count_list (pins_of (pins r)) pin = 1"
    using facts(1) by (simp add: count_list_distinct)
  have all: "\<forall>pin \<in> set (pins_of (fixed @ phos @ reac)). count_list (pins_of (pins r)) pin = 1"
    if "distinct (map lower (dict_keys (fixed @ phos @ reac)))"
  proof -
    from facts(6) [OF that] have "pins_of (pins r) = pins_of (fixed @ phos @ reac)"
      by (simp add: pins_of_lower_keys)
    with one show ?thesis by simp
  qed
  from one facts(2) facts(4) all show ?thesis by blast
qed

theorem pinout_pins_unique_witness:
  "Pinout_init ascii_lower [(''A'', Valve (P 20))] [(''T'', Valve (P 21))] =
     Inr (projr (Pinout_init ascii_lower [(''A'', Valve (P 20))] [(''T'', Valve (P 21))]))
   \<and> distinct (map ascii_lower (dict_keys (fixed @ [(''A'', Valve (P 20))] @ [(''T'', Valve (P 21))])))
   \<and> P 20 \<in> set (pins_of (fixed @ [(''A'', Valve (P 20))] @ [(''T'', Valve (P 21))]))
   \<and> count_list (pins_of (pins (projr
        (Pinout_init ascii_lower [(''A'', Valve (P 20))] [(''T'', Valve (P 21))])))) (P 20) = 1"
proof -
  let ?r = "projr (Pinout_init ascii_lower [(''A'', Valve (P 20))] [(''T'', Valve (P 21))])"
  have ok: "Pinout_init ascii_lower [(''A'', Valve (P 20))] [(''T'', Valve (P 21))] = Inr ?r"
    by code_simp
  have names: "distinct (map ascii_lower (dict_keys (fixed @ [(''A'', Valve (P 20))] @ [(''T'', Valve (P 21))])))"
    by code_simp
  have pin: "P 20 \<in> set (pins_of (fixed @ [(''A'', Valve (P 20))] @ [(''T'', Valve (P 21))]))"
    by code_simp
  from pinout_pins_unique [OF ok] names
  have "\<forall>pin \<in> set (pins_of (fixed @ [(''A'', Valve (P 20))] @ [(''T'', Valve (P 21))])).
          count_list (pins_of (pins ?r)) pin = 1"
    by (elim conjE impE) assumption+
  from this pin have "count_list (pins_of (pins ?r)) (P 20) = 1" by (rule bspec)
  with ok names pin show ?thesis by (intro conjI)
qed

lemma get_same_device:
  "lower n' = lower n \<Longrightarrow> get lower r n = Inr d \<Longrightarrow> get lower r n' = Inr d"
  by (auto simp: get_def split: option.splits)

lemma get_found:
  assumes "lower name \<in> set (dict_keys (pins r))"
  shows "\<exists>d. get lower r name = Inr d \<and> map_of (pins r) (lower name) = Some d
           \<and> (lower name, d) \<in> set (pins r)"
proof -
  from assms have "map_of (pinout r) (lower name) \<noteq> None"
    by (simp add: map_of_eq_None_iff dict_keys_def pins_def)
  then obtain d where d: "map_of (pinout r) (lower name) = Some d" by blast
  then have "(lower name, d) \<in> set (pins r)" by (simp add: map_of_SomeD pins_def)
  with d show ?thesis by (simp add: get_def pins_def)
qed

lemma get_missing:
  assumes "lower name \<notin> set (dict_keys (pins r))"
  shows "get lower r name = Inl (NoSuchPinInPinout name (dict_keys (pins r)))"
proof -
  from assms have "map_of (pinout r) (lower name) = None"
    by (simp add: map_of_eq_None_iff dict_keys_def pins_def)
  then show ?thesis by (simp add: get_def pins_def)
qed

lemma registry_keys_lower:
  assumes "Pinout_init lower phos reac = Inr r" and "\<forall>s. lower (lower s) = lower s"
    and "k \<in> set (dict_keys (pins r))"
  shows "lower k = k"
  using assms(2,3) registry_facts(3) [OF assms(1)] by auto

lemma input_name_registered:
  assumes "Pinout_init lower phos reac = Inr r" and "n \<in> set (dict_keys (fixed @ phos @ reac))"
  shows "lower n \<in> set (dict_keys (pins r))"
  using assms(2) registry_facts(3) [OF assms(1)] by auto

lemma waste_in_fixed: "''waste'' \<in> set (dict_keys (fixed @ phos @ reac))"
  by (simp add: dict_keys_def fixed_def)

section \<open>Lookup by name\<close>

text \<open>
  Claim C4. In every successfully constructed registry the stored names are the
  lower-cased names of the input entries (and, \<open>str.lower\<close> being idempotent, each
  stored name is its own lower-casing). \<open>get\<close> lower-cases its query the same way: for
  every name whose lower-cased form is registered, all the spellings that agree with it
  after lower-casing return one and the same device, the one stored under that
  lower-cased key, which is the device of the last input entry with that lower-cased
  name. As \<open>str.lower\<close> sends \<open>Waste\<close>, \<open>waste\<close> and \<open>WASTE\<close> to \<open>waste\<close>, the key
  \<open>waste\<close> is registered and the three queries return the device stored under it.
\<close>

theorem get_case_insensitive:
  assumes "Pinout_init lower phos reac = Inr r"
  shows "set (dict_keys (pins r)) = lower ` set (dict_keys (fixed @ phos @ reac))
       \<and> ((\<forall>s. lower (lower s) = lower s) \<longrightarrow> (\<forall>k \<in> set (dict_keys (pins r)). lower k = k))
       \<and> (\<forall>n. lower n \<in> set (dict_keys (pins r)) \<longrightarrow>
             (\<exists>d. map_of (rev (lower_keys lower (fixed @ phos @ reac))) (lower n) = Some d
                  \<and> (lower n, d) \<in> set (pins r)
                  \<and> (\<forall>n'. lower n' = lower n \<longrightarrow> get lower r n' = Inr d)))
       \<and> (lower ''waste'' = ''waste'' \<and> lower ''Waste'' = ''waste'' \<and> lower ''WASTE'' = ''waste''
           \<longrightarrow> ''waste'' \<in> set (dict_keys (pins r))
             \<and> (\<exists>d. (''waste'', d) \<in> set (pins r)
                    \<and> get lower r ''Waste'' = Inr d
                    \<and> get lower r ''waste'' = Inr d
                    \<and> get lower r ''WASTE'' = Inr d))"
proof -
  note facts = registry_facts [OF assms]
  have a: "set (dict_keys (pins r)) = lower ` set (dict_keys (fixed @ phos @ reac))"
    by (rule facts(3))
  have b: "\<forall>k \<in> set (dict_keys (pins r)). lower k = k" if "\<forall>s. lower (lower s) = lower s"
    using registry_keys_lower [OF assms that] by blast
  have c: "\<exists>d. map_of (rev (lower_keys lower (fixed @ phos @ reac))) (lower n) = Some d
      \<and> (lower n, d) \<in> set (pins r)
      \<and> (\<forall>n'. lower n' = lower n \<longrightarrow> get lower r n' = Inr d)"
    if "lower n \<in> set (dict_keys (pins r))" for n
  proof -
    from get_found [where lower = lower and name = n, OF that]
    obtain d where g: "get lower r n = Inr d"
      and m: "map_of (pins r) (lower n) = Some d"
      and e: "(lower n, d) \<in> set (pins r)" by blast
    from g have "\<forall>n'. lower n' = lower n \<longrightarrow> get lower r n' = Inr d"
      by (blast intro: get_same_device)
    moreover from m have "map_of (rev (lower_keys lower (fixed @ phos @ reac))) (lower n) = Some d"
      by (simp only: facts(5))
    ultimately show ?thesis using e by blast
  qed
  have d: "''waste'' \<in> set (dict_keys (pins r))
      \<and> (\<exists>d. (''waste'', d) \<in> set (pins r)
             \<and> get lower r ''Waste'' = Inr d
             \<and> get lower r ''waste'' = Inr d
             \<and> get lower r ''WASTE'' = Inr d)"
    if l: "lower ''waste'' = ''waste'' \<and> lower ''Waste'' = ''waste'' \<and> lower ''WASTE'' = ''waste''"
  proof -
    from input_name_registered [OF assms waste_in_fixed] l
    have reg: "''waste'' \<in> set (dict_keys (pins r))" by simp
    with l have "lower ''waste'' \<in> set (dict_keys (pins r))" by simp
    from c [OF this] l obtain dv where "(''waste'', dv) \<in> set (pins r)"
      and "\<forall>n'. lower n' = ''waste'' \<longrightarrow> get lower r n' = Inr dv"
      by auto
    with l have "(''waste'', dv) \<in> set (pins r) \<and> get lower r ''Waste'' = Inr dv
        \<and> get lower r ''waste'' = Inr dv \<and> get lower r ''WASTE'' = Inr dv"
      by simp
    with reg show ?thesis by blast
  qed
  from a b c d show ?thesis by blast
qed

theorem get_case_insensitive_witness:
  "Pinout_init ascii_lower [(''dA'', Valve (P 20))] [] =
     Inr (projr (Pinout_init ascii_lower [(''dA'', Valve (P 20))] []))
   \<and> ascii_lower ''DA'' \<in> set (dict_keys (pins (projr (Pinout_init ascii_lower [(''dA'', Valve (P 20))] []))))
   \<and> ascii_lower ''Da'' = ascii_lower ''DA''
   \<and> (\<exists>d. get ascii_lower (projr (Pinout_init ascii_lower [(''dA'', Valve (P 20))] [])) ''DA'' = Inr d
          \<and> get ascii_lower (projr (Pinout_init ascii_lower [(''dA'', Valve (P 20))] [])) ''Da'' = Inr d)
   \<and> ascii_lower ''waste'' = ''waste'' \<and> ascii_lower ''Waste'' = ''waste''
   \<and> ascii_lower ''WASTE'' = ''waste''
   \<and> (\<exists>d. get ascii_lower (projr (Pinout_init ascii_lower [(''dA'', Valve (P 20))] [])) ''Waste'' = Inr d
          \<and> get ascii_lower (projr (Pinout_init ascii_lower [(''dA'', Valve (P 20))] [])) ''WASTE'' = Inr d)"
proof -
  let ?r = "projr (Pinout_init ascii_lower [(''dA'', Valve (P 20))] [])"
  have ok: "Pinout_init ascii_lower [(''dA'', Valve (P 20))] [] = Inr ?r" by code_simp
  have reg: "ascii_lower ''DA'' \<in> set (dict_keys (pins ?r))" by code_simp
  have low: "ascii_lower ''Da'' = ascii_lower ''DA''" by code_simp
  have w1: "ascii_lower ''waste'' = ''waste''" and w2: "ascii_lower ''Waste'' = ''waste''"
    and w3: "ascii_lower ''WASTE'' = ''waste''" by code_simp+
  note th = get_case_insensitive [OF ok]
  from th [THEN conjunct2, THEN conjunct2, THEN conjunct1] reg
  obtain d where d: "\<forall>n'. ascii_lower n' = ascii_lower ''DA'' \<longrightarrow> get ascii_lower ?r n' = Inr d"
    by blast
  from d have "get ascii_lower ?r ''DA'' = Inr d" by blast
  moreover from d low have "get ascii_lower ?r ''Da'' = Inr d" by blast
  ultimately have da: "\<exists>d. get ascii_lower ?r ''DA'' = Inr d \<and> get ascii_lower ?r ''Da'' = Inr d"
    by blast
  from w1 w2 w3 have "ascii_lower ''waste'' = ''waste'' \<and> ascii_lower ''Waste'' = ''waste''
      \<and> ascii_lower ''WASTE'' = ''waste''" by (intro conjI)
  with th [THEN conjunct2, THEN conjunct2, THEN conjunct2]
  have "''waste'' \<in> set (dict_keys (pins ?r))
      \<and> (\<exists>d. (''waste'', d) \<in> set (pins ?r)
             \<and> get ascii_lower ?r ''Waste'' = Inr d
             \<and> get ascii_lower ?r ''waste'' = Inr d
             \<and> get ascii_lower ?r ''WASTE'' = Inr d)"
    by (rule mp)
  then have ws: "\<exists>d. get ascii_lower ?r ''Waste'' = Inr d \<and> get ascii_lower ?r ''WASTE'' = Inr d"
    by blast
  from ok reg low da w1 w2 w3 ws show ?thesis by (intro conjI)
qed

text \<open>
  Claim C5. A query whose lower-cased form is not a key of the table fails with
  \<open>NoSuchPinInPinout\<close>, which carries the name as queried and all the names currently
  registered, in table order. A query whose lower-cased form is a key returns the device
  bound to that key and raises nothing. In a constructed registry the name of every
  input entry is such a query, and so is every stored name, \<open>str.lower\<close> being
  idempotent.
\<close>

theorem get_not_found:
  "(lower name \<notin> set (dict_keys (pins r)) \<longrightarrow>
      get lower r name = Inl (NoSuchPinInPinout name (dict_keys (pins r))))
   \<and> (lower name \<in> set (dict_keys (pins r)) \<longrightarrow>
      (\<exists>d. get lower r name = Inr d \<and> (lower name, d) \<in> set (pins r)))
   \<and> (Pinout_init lower phos reac = Inr r \<longrightarrow>
      (\<forall>n \<in> set (dict_keys (fixed @ phos @ reac)).
          \<exists>d. get lower r n = Inr d \<and> (lower n, d) \<in> set (pins r)))
   \<and> (Pinout_init lower phos reac = Inr r \<and> (\<forall>s. lower (lower s) = lower s) \<longrightarrow>
      (\<forall>k \<in> set (dict_keys (pins r)). \<exists>d. get lower r k = Inr d \<and> (k, d) \<in> set (pins r)))"
proof -
  have a: "\<exists>d. get lower r n = Inr d \<and> (lower n, d) \<in> set (pins r)"
    if "Pinout_init lower phos reac = Inr r" and "n \<in> set (dict_keys (fixed @ phos @ reac))" for n
    using get_found [where lower = lower and name = n, OF input_name_registered [OF that]]
    by blast
  have b: "\<exists>d. get lower r k = Inr d \<and> (k, d) \<in> set (pins r)"
    if "Pinout_init lower phos reac = Inr r" and "\<forall>s. lower (lower s) = lower s"
      and "k \<in> set (dict_keys (pins r))" for k
  proof -
    from registry_keys_lower [OF that] have "lower k = k" .
    with get_found [of lower k r] that(3) show ?thesis by auto
  qed
  have c: "lower name \<in> set (dict_keys (pins r)) \<longrightarrow>
      (\<exists>d. get lower r name = Inr d \<and> (lower name, d) \<in> set (pins r))"
    using get_found [of lower name r] by blast
  from a b c get_missing [of lower name r] show ?thesis by blast
qed

theorem get_not_found_witness:
  "Pinout_init ascii_lower [] [] = Inr (projr (Pinout_init ascii_lower [] []))
   \<and> ascii_lower ''nonexistent'' \<notin> set (dict_keys (pins (projr (Pinout_init ascii_lower [] []))))
   \<and> get ascii_lower (projr (Pinout_init ascii_lower [] [])) ''nonexistent'' =
       Inl (NoSuchPinInPinout ''nonexistent''
             [''waste'', ''waste_rxn'', ''prod'', ''branch'', ''rxn_out'', ''sol'', ''gas'', ''pump''])
   \<and> ''pump'' \<in> set (dict_keys (pins (projr (Pinout_init ascii_lower [] []))))
   \<and> (\<exists>d. get ascii_lower (projr (Pinout_init ascii_lower [] [])) ''pump'' = Inr d
          \<and> (''pump'', d) \<in> set (pins (projr (Pinout_init ascii_lower [] []))))"
proof -
  let ?r = "projr (Pinout_init ascii_lower [] [])"
  have ok: "Pinout_init ascii_lower [] [] = Inr ?r" by code_simp
  have absent: "ascii_lower ''nonexistent'' \<notin> set (dict_keys (pins ?r))" by code_simp
  have present: "''pump'' \<in> set (dict_keys (pins ?r))" by code_simp
  have ks: "dict_keys (pins ?r) =
      [''waste'', ''waste_rxn'', ''prod'', ''branch'', ''rxn_out'', ''sol'', ''gas'', ''pump'']"
    by code_simp
  have idem: "\<forall>s. ascii_lower (ascii_lower s) = ascii_lower s"
    by (simp add: ascii_lower_idem)
  note th = get_not_found [where lower = ascii_lower and name = "''nonexistent''" and r = ?r
      and phos = "[]" and reac = "[]"]
  from th [THEN conjunct1] absent
  have "get ascii_lower ?r ''nonexistent'' =
      Inl (NoSuchPinInPinout ''nonexistent'' (dict_keys (pins ?r)))"
    by (rule mp)
  then have miss: "get ascii_lower ?r ''nonexistent'' =
      Inl (NoSuchPinInPinout ''nonexistent''
        [''waste'', ''waste_rxn'', ''prod'', ''branch'', ''rxn_out'', ''sol'', ''gas'', ''pump''])"
    by (simp only: ks)
  from th [THEN conjunct2, THEN conjunct2, THEN conjunct2] conjI [OF ok idem]
  have "\<forall>k \<in> set (dict_keys (pins ?r)).
      \<exists>d. get ascii_lower ?r k = Inr d \<and> (k, d) \<in> set (pins ?r)"
    by (rule mp)
  from this present
  have "\<exists>d. get ascii_lower ?r ''pump'' = Inr d \<and> (''pump'', d) \<in> set (pins ?r)"
    by (rule bspec)
  with ok absent miss present show ?thesis by (intro conjI)
qed

lemma valves_lower_keys:
  "filter (\<lambda>(k, v). is_Valve v) (lower_keys lower d) = lower_keys lower (filter (\<lambda>(k, v). is_Valve v) d)"
  by (induction d) (auto simp: lower_keys_def)

lemma length_lower_keys: "length (lower_keys lower d) = length d"
  by (simp add: lower_keys_def)

lemma filter_all_valves:
  "\<forall>v \<in> set (dict_values d). is_Valve v \<Longrightarrow> filter (\<lambda>(k, v). is_Valve v) d = d"
  by (induction d) (auto simp: dict_values_def)

lemma fixed_valves: "length (filter (\<lambda>(k, v). is_Valve v) fixed) = 7"
  by (simp add: fixed_def)

lemma length_fixed: "length fixed = 8"
  by (simp add: fixed_def)

section \<open>The valves of the registry\<close>

text \<open>
  Claim C6, as stated, fails on the count: input names that are pairwise distinct can
  still agree after lower-casing, and then one entry replaces the other. With the two
  configurable valves \<open>A\<close> and \<open>a\<close> construction succeeds and \<open>valves()\<close> has 8 entries,
  not 7 + 2.
\<close>

theorem valves_count_counterexample:
  "distinct (dict_keys (fixed @ [(''A'', Valve (P 20)), (''a'', Valve (P 21))] @ []))
   \<and> list_all is_Valve (dict_values [(''A'', Valve (P 20)), (''a'', Valve (P 21))])
   \<and> Pinout_init ascii_lower [(''A'', Valve (P 20)), (''a'', Valve (P 21))] [] =
        Inr (projr (Pinout_init ascii_lower [(''A'', Valve (P 20)), (''a'', Valve (P 21))] []))
   \<and> length [(''A'', Valve (P 20)), (''a'', Valve (P 21))] = 2
   \<and> length (valves (projr (Pinout_init ascii_lower [(''A'', Valve (P 20)), (''a'', Valve (P 21))] []))) = 8"
  by code_simp

text \<open>
  Claim C6, amended. For every registry, \<open>valves()\<close> is a sub-collection of \<open>pins()\<close>
  with no Switch entry. For a registry built from the fixed map (7 valves and the pump
  switch) and K configurable valve entries, where the lower-cased names of all entries
  are pairwise distinct, \<open>pins()\<close> has 8 + K entries and \<open>valves()\<close> has 7 + K.
\<close>

theorem valves_subset_and_count:
  "set (valves r) \<subseteq> set (pins r)
   \<and> (\<forall>(k, v) \<in> set (valves r). is_Valve v)
   \<and> (\<forall>k pin. (k, Switch pin) \<notin> set (valves r))
   \<and> (Pinout_init lower phos reac = Inr r
        \<and> (\<forall>v \<in> set (dict_values (phos @ reac)). is_Valve v)
        \<and> distinct (map lower (dict_keys (fixed @ phos @ reac)))
      \<longrightarrow> length (valves r) = 7 + (length phos + length reac)
        \<and> length (pins r) = 8 + (length phos + length reac))"
proof -
  have a: "set (valves r) \<subseteq> set (pins r)"
    by (auto simp: valves_def pins_def)
  have b: "\<forall>(k, v) \<in> set (valves r). is_Valve v"
    by (auto simp: valves_def)
  have c: "\<forall>k pin. (k, Switch pin) \<notin> set (valves r)"
    by (auto simp: valves_def)
  have d: "length (valves r) = 7 + (length phos + length reac)
        \<and> length (pins r) = 8 + (length phos + length reac)"
    if ok: "Pinout_init lower phos reac = Inr r"
      and vs: "\<forall>v \<in> set (dict_values (phos @ reac)). is_Valve v"
      and names: "distinct (map lower (dict_keys (fixed @ phos @ reac)))"
  proof -
    from registry_facts(6) [OF ok names] have tbl: "pins r = lower_keys lower (fixed @ phos @ reac)" .
    have "valves r = lower_keys lower (filter (\<lambda>(k, v). is_Valve v) (fixed @ phos @ reac))"
      using tbl by (simp add: valves_def pins_def valves_lower_keys)
    also have "filter (\<lambda>(k, v). is_Valve v) (fixed @ phos @ reac) =
        filter (\<lambda>(k, v). is_Valve v) fixed @ (phos @ reac)"
      using filter_all_valves [OF vs] by simp
    finally have "length (valves r) = 7 + (length phos + length reac)"
      by (simp add: length_lower_keys fixed_valves)
    moreover from tbl have "length (pins r) = 8 + (length phos + length reac)"
      by (simp add: length_lower_keys length_fixed)
    ultimately show ?thesis ..
  qed
  from a b c d show ?thesis by blast
qed

theorem valves_subset_and_count_witness:
  "Pinout_init ascii_lower [(''A'', Valve (P 20))] [(''C'', Valve (P 21)), (''G'', Valve (P 22))] =
     Inr (projr (Pinout_init ascii_lower [(''A'', Valve (P 20))] [(''C'', Valve (P 21)), (''G'', Valve (P 22))]))
   \<and> list_all is_Valve
        (dict_values ([(''A'', Valve (P 20))] @ [(''C'', Valve (P 21)), (''G'', Valve (P 22))]))
   \<and> distinct (map ascii_lower (dict_keys
        (fixed @ [(''A'', Valve (P 20))] @ [(''C'', Valve (P 21)), (''G'', Valve (P 22))])))
   \<and> length (valves (projr
        (Pinout_init ascii_lower [(''A'', Valve (P 20))] [(''C'', Valve (P 21)), (''G'', Valve (P 22))]))) = 10"
proof -
  let ?phos = "[(''A'', Valve (P 20))]"
  let ?reac = "[(''C'', Valve (P 21)), (''G'', Valve (P 22))]"
  let ?r = "projr (Pinout_init ascii_lower ?phos ?reac)"
  have ok: "Pinout_init ascii_lower ?phos ?reac = Inr ?r" by code_simp
  have vs: "\<forall>v \<in> set (dict_values (?phos @ ?reac)). is_Valve v"
    by (simp add: dict_values_def)
  have names: "distinct (map ascii_lower (dict_keys (fixed @ ?phos @ ?reac)))" by code_simp
  note th = valves_subset_and_count
    [where r = ?r and lower = ascii_lower and phos = ?phos and reac = ?reac]
  from ok vs names have "Pinout_init ascii_lower ?phos ?reac = Inr ?r
        \<and> (\<forall>v \<in> set (dict_values (?phos @ ?reac)). is_Valve v)
        \<and> distinct (map ascii_lower (dict_keys (fixed @ ?phos @ ?reac)))"
    by (intro conjI)
  with th [THEN conjunct2, THEN conjunct2, THEN conjunct2]
  have "length (valves ?r) = 7 + (length ?phos + length ?reac)
        \<and> length (pins ?r) = 8 + (length ?phos + length ?reac)"
    by (rule mp)
  then have "length (valves ?r) = 10" by simp
  moreover have "list_all is_Valve (dict_values (?phos @ ?reac))"
    by (simp add: dict_values_def)
  ultimately show ?thesis using ok names by (intro conjI)
qed

lemma add_entries_first_duplicate:
  assumes "add_entries lower pre t = Inr t1" and "gpio_pin v \<in> set (pins_of t1)"
  shows "add_entries lower (pre @ (c, n, v) # post) t = Inl (ValueError v c n)"
proof -
  from assms(2) have "add_pinout_safe lower t1 v c n = Inl (ValueError v c n)"
    by (simp add: add_pinout_safe_Inl)
  with assms(1) show ?thesis by (simp add: add_entries_append)
qed

lemma add_entries_distinct_prefix:
  assumes "distinct (map fst (lowered lower pre))" and "distinct (pins_of (lowered lower pre))"
  shows "add_entries lower pre [] = Inr (lowered lower pre)"
proof -
  from add_entries_succeeds [where lower = lower and es = pre and t = "[]"] assms(2)
  obtain t' where t': "add_entries lower pre [] = Inr t'" by (auto simp: pins_of_def)
  from add_entries_appends [OF t' assms(1)] have "t' = lowered lower pre" by simp
  with t' show ?thesis by simp
qed

lemma fails_on_bound_pin:
  assumes "input_entries phos reac = pre @ (category, name, dev) # post"
    and "add_entries lower pre [] = Inr tbl"
    and "gpio_pin dev \<in> set (pins_of tbl)"
  shows "Pinout_init lower phos reac = Inl (ValueError dev category name)"
  using add_entries_first_duplicate [OF assms(2,3)] assms(1) by (simp add: Pinout_init_Inl)

lemma fails_on_earlier_pin:
  assumes "input_entries phos reac = pre @ (category, name, dev) # post"
    and "distinct (map fst (lowered lower pre))"
    and "distinct (pins_of (lowered lower pre))"
    and "gpio_pin dev \<in> set (pins_of (lowered lower pre))"
  shows "Pinout_init lower phos reac = Inl (ValueError dev category name)"
  using fails_on_bound_pin [OF assms(1) add_entries_distinct_prefix [OF assms(2,3)] assms(4)] .

lemma pins_of_lowered_tagged: "pins_of (lowered lower (tagged key d @ es)) = pins_of d @ pins_of (lowered lower es)"
  by (simp add: lowered_append lowered_tagged pins_of_lower_keys pins_of_append)

section \<open>The duplicate-pin error\<close>

text \<open>
  Claim C2, as stated, fails twice. The error carries the offending device, the name of
  the attribute being walked and the offending name, and nothing about the entry that
  claimed the pin first: with the first claimant called \<open>x\<close> or \<open>z\<close> the error is the
  same. And the check looks at the devices now in the table, so a pin whose binding was
  replaced under its name can be given again: pin 20 is carried by \<open>A\<close> and by \<open>b\<close>, and
  construction succeeds.
\<close>

theorem duplicate_pin_error_counterexample:
  "Pinout_init ascii_lower [(''x'', Valve (P 20))] [(''y'', Valve (P 20))] =
     Inl (ValueError (Valve (P 20)) ''reactants'' ''y'')
   \<and> Pinout_init ascii_lower [(''z'', Valve (P 20))] [(''y'', Valve (P 20))] =
     Inl (ValueError (Valve (P 20)) ''reactants'' ''y'')
   \<and> Pinout_init ascii_lower [(''A'', Valve (P 20))] [(''a'', Valve (P 21)), (''b'', Valve (P 20))] =
     Inr \<lparr>self_fixed = fixed,
          phosphoramidites = [(''A'', Valve (P 20))],
          reactants = [(''a'', Valve (P 21)), (''b'', Valve (P 20))],
          pinout =
            [(''waste'', Valve (P 7)), (''waste_rxn'', Valve (P 5)), (''prod'', Valve (P 8)),
             (''branch'', Valve (P 12)), (''rxn_out'', Valve (P 13)), (''sol'', Valve (P 3)),
             (''gas'', Valve (P 10)), (''pump'', Switch (P 11)), (''a'', Valve (P 21)),
             (''b'', Valve (P 20))]\<rparr>"
  by code_simp

text \<open>
  Claim C2, amended. Walk the entries in processing order. If every entry before some
  entry was accepted, and that entry's device carries the pin of a device bound in the
  table at that moment, construction fails at that entry, whatever follows it, with the
  \<open>ValueError\<close> that carries the offending device (and so its pin), the attribute it was
  found in and the offending name as written. That is the case whenever the earlier
  entries have pairwise distinct lower-cased names and pairwise distinct pins and one of
  them carries the pin. The name that first claimed the pin is not reported.
\<close>

theorem duplicate_pin_fails_at_second:
  "(input_entries phos reac = pre @ (category, name, dev) # post
      \<and> add_entries lower pre [] = Inr tbl
      \<and> gpio_pin dev \<in> set (pins_of tbl)
    \<longrightarrow> Pinout_init lower phos reac = Inl (ValueError dev category name))
   \<and> (input_entries phos reac = pre @ (category, name, dev) # post
      \<and> distinct (map fst (lowered lower pre))
      \<and> distinct (pins_of (lowered lower pre))
      \<and> gpio_pin dev \<in> set (pins_of (lowered lower pre))
    \<longrightarrow> Pinout_init lower phos reac = Inl (ValueError dev category name))"
  using fails_on_bound_pin [of phos reac pre category name dev post lower tbl]
    fails_on_earlier_pin [of phos reac pre category name dev post lower]
  by blast

theorem duplicate_pin_fails_at_second_witness:
  "input_entries [(''A'', Valve (P 20)), (''a'', Valve (P 21)), (''b'', Valve (P 21))] [] =
     (tagged ''fixed'' fixed
        @ [(''phosphoramidites'', ''A'', Valve (P 20)), (''phosphoramidites'', ''a'', Valve (P 21))])
       @ (''phosphoramidites'', ''b'', Valve (P 21)) # []
   \<and> add_entries ascii_lower
        (tagged ''fixed'' fixed
          @ [(''phosphoramidites'', ''A'', Valve (P 20)), (''phosphoramidites'', ''a'', Valve (P 21))]) [] =
       Inr (fixed @ [(''a'', Valve (P 21))])
   \<and> gpio_pin (Valve (P 21)) \<in> set (pins_of (fixed @ [(''a'', Valve (P 21))]))
   \<and> Pinout_init ascii_lower [(''A'', Valve (P 20)), (''a'', Valve (P 21)), (''b'', Valve (P 21))] [] =
        Inl (ValueError (Valve (P 21)) ''phosphoramidites'' ''b'')
   \<and> input_entries [(''dA'', Valve (P 20)), (''dT'', Valve (P 7)), (''dG'', Valve (P 20))] [] =
     (tagged ''fixed'' fixed @ [(''phosphoramidites'', ''dA'', Valve (P 20))])
       @ (''phosphoramidites'', ''dT'', Valve (P 7))
       # [(''phosphoramidites'', ''dG'', Valve (P 20))]
   \<and> distinct (map fst (lowered ascii_lower
        (tagged ''fixed'' fixed @ [(''phosphoramidites'', ''dA'', Valve (P 20))])))
   \<and> distinct (pins_of (lowered ascii_lower
        (tagged ''fixed'' fixed @ [(''phosphoramidites'', ''dA'', Valve (P 20))])))
   \<and> gpio_pin (Valve (P 7)) \<in> set (pins_of (lowered ascii_lower
        (tagged ''fixed'' fixed @ [(''phosphoramidites'', ''dA'', Valve (P 20))])))
   \<and> Pinout_init ascii_lower [(''dA'', Valve (P 20)), (''dT'', Valve (P 7)), (''dG'', Valve (P 20))] [] =
        Inl (ValueError (Valve (P 7)) ''phosphoramidites'' ''dT'')"
proof -
  let ?phos1 = "[(''A'', Valve (P 20)), (''a'', Valve (P 21)), (''b'', Valve (P 21))]"
  let ?pre1 = "tagged ''fixed'' fixed
        @ [(''phosphoramidites'', ''A'', Valve (P 20)), (''phosphoramidites'', ''a'', Valve (P 21))]"
  let ?tbl = "fixed @ [(''a'', Valve (P 21))]"
  let ?phos2 = "[(''dA'', Valve (P 20)), (''dT'', Valve (P 7)), (''dG'', Valve (P 20))]"
  let ?pre2 = "tagged ''fixed'' fixed @ [(''phosphoramidites'', ''dA'', Valve (P 20))]"
  have s1: "input_entries ?phos1 [] = ?pre1 @ (''phosphoramidites'', ''b'', Valve (P 21)) # []"
    by (simp add: input_entries_def tagged_def)
  have t1: "add_entries ascii_lower ?pre1 [] = Inr ?tbl" by code_simp
  have d1: "gpio_pin (Valve (P 21)) \<in> set (pins_of ?tbl)" by code_simp
  have s2: "input_entries ?phos2 [] =
      ?pre2 @ (''phosphoramidites'', ''dT'', Valve (P 7)) # [(''phosphoramidites'', ''dG'', Valve (P 20))]"
    by (simp add: input_entries_def tagged_def)
  have n2: "distinct (map fst (lowered ascii_lower ?pre2))" by code_simp
  have p2: "distinct (pins_of (lowered ascii_lower ?pre2))" by code_simp
  have d2: "gpio_pin (Valve (P 7)) \<in> set (pins_of (lowered ascii_lower ?pre2))" by code_simp
  from duplicate_pin_fails_at_second
    [where lower = ascii_lower and phos = ?phos1 and reac = "[]" and pre = ?pre1
       and category = "''phosphoramidites''" and name = "''b''" and dev = "Valve (P 21)"
       and post = "[]" and tbl = ?tbl, THEN conjunct1]
    conjI [OF s1 conjI [OF t1 d1]]
  have r1: "Pinout_init ascii_lower ?phos1 [] = Inl (ValueError (Valve (P 21)) ''phosphoramidites'' ''b'')"
    by (rule mp)
  from duplicate_pin_fails_at_second
    [where lower = ascii_lower and phos = ?phos2 and reac = "[]" and pre = ?pre2
       and category = "''phosphoramidites''" and name = "''dT''" and dev = "Valve (P 7)"
       and post = "[(''phosphoramidites'', ''dG'', Valve (P 20))]", THEN conjunct2]
    conjI [OF s2 conjI [OF n2 conjI [OF p2 d2]]]
  have r2: "Pinout_init ascii_lower ?phos2 [] = Inl (ValueError (Valve (P 7)) ''phosphoramidites'' ''dT'')"
    by (rule mp)
  from s1 t1 d1 r1 s2 n2 p2 d2 r2 show ?thesis by (intro conjI)
qed

section \<open>Switches and valves collide alike\<close>

text \<open>
  Claim C3, as stated, fails: a configurable valve wired to pin 11 of the fixed switch
  \<open>pump\<close> is not always rejected. Here the entry \<open>PUMP\<close> first replaces the binding of
  \<open>pump\<close> with a valve on pin 20, pin 11 leaves the table, and the valve \<open>x\<close> on pin 11
  is accepted.
\<close>

theorem pump_pin_reused_counterexample:
  "Pinout_init ascii_lower [(''PUMP'', Valve (P 20)), (''x'', Valve (P 11))] [] =
     Inr \<lparr>self_fixed = fixed,
          phosphoramidites = [(''PUMP'', Valve (P 20)), (''x'', Valve (P 11))],
          reactants = [],
          pinout =
            [(''waste'', Valve (P 7)), (''waste_rxn'', Valve (P 5)), (''prod'', Valve (P 8)),
             (''branch'', Valve (P 12)), (''rxn_out'', Valve (P 13)), (''sol'', Valve (P 3)),
             (''gas'', Valve (P 10)), (''pump'', Valve (P 20)), (''x'', Valve (P 11))]\<rparr>"
  by code_simp

text \<open>
  Claim C3, amended. Equality of devices is equality of their pins, whatever the variant,
  so the duplicate check does not look at the Switch/Valve tag: if every entry walked so
  far was accepted and the table binds a name to a device on some pin, a valve on that
  pin is rejected with the same error whether the bound device is a Switch or a Valve.
  When the fixed entries and the configurable entries walked before it have pairwise
  distinct lower-cased names and pairwise distinct pins, a configurable valve on the pin
  of any fixed device fails that way: on pin 11 of the switch \<open>pump\<close> as on pin 7 of the
  valve \<open>waste\<close>.
\<close>

theorem duplicate_check_variant_blind:
  "(switchable_eq a b \<longleftrightarrow> gpio_pin a = gpio_pin b)
   \<and> switchable_eq (Valve pin) (Switch pin)
   \<and> (input_entries phos reac = pre @ (category, name, Valve pin) # post
        \<and> add_entries lower pre [] = Inr tbl
        \<and> ((k, Switch pin) \<in> set tbl \<or> (k, Valve pin) \<in> set tbl)
      \<longrightarrow> Pinout_init lower phos reac = Inl (ValueError (Valve pin) category name))
   \<and> (input_entries phos reac = (tagged ''fixed'' fixed @ mid) @ (category, name, Valve pin) # post
        \<and> distinct (map fst (lowered lower (tagged ''fixed'' fixed @ mid)))
        \<and> distinct (pins_of (lowered lower (tagged ''fixed'' fixed @ mid)))
        \<and> pin \<in> set (pins_of fixed)
      \<longrightarrow> Pinout_init lower phos reac = Inl (ValueError (Valve pin) category name))
   \<and> (''pump'', Switch (P 11)) \<in> set fixed \<and> P 11 \<in> set (pins_of fixed)
   \<and> (''waste'', Valve (P 7)) \<in> set fixed \<and> P 7 \<in> set (pins_of fixed)"
proof -
  have a: "Pinout_init lower phos reac = Inl (ValueError (Valve pin) category name)"
    if "input_entries phos reac = pre @ (category, name, Valve pin) # post"
      and "add_entries lower pre [] = Inr tbl"
      and "(k, Switch pin) \<in> set tbl \<or> (k, Valve pin) \<in> set tbl"
  proof -
    from that(3) have "gpio_pin (Valve pin) \<in> set (pins_of tbl)"
      by (force simp: pins_of_def)
    from fails_on_bound_pin [OF that(1,2) this] show ?thesis .
  qed
  have b: "Pinout_init lower phos reac = Inl (ValueError (Valve pin) category name)"
    if "input_entries phos reac = (tagged ''fixed'' fixed @ mid) @ (category, name, Valve pin) # post"
      and "distinct (map fst (lowered lower (tagged ''fixed'' fixed @ mid)))"
      and "distinct (pins_of (lowered lower (tagged ''fixed'' fixed @ mid)))"
      and "pin \<in> set (pins_of fixed)"
  proof -
    from that(4) have "gpio_pin (Valve pin) \<in> set (pins_of (lowered lower (tagged ''fixed'' fixed @ mid)))"
      by (simp add: pins_of_lowered_tagged)
    from fails_on_earlier_pin [OF that(1,2,3) this] show ?thesis .
  qed
  have c: "(''pump'', Switch (P 11)) \<in> set fixed \<and> P 11 \<in> set (pins_of fixed)
      \<and> (''waste'', Valve (P 7)) \<in> set fixed \<and> P 7 \<in> set (pins_of fixed)"
    by (simp add: fixed_def pins_of_def)
  have d: "(switchable_eq a b \<longleftrightarrow> gpio_pin a = gpio_pin b) \<and> switchable_eq (Valve pin) (Switch pin)"
    by (simp add: switchable_eq_def)
  from a b c d show ?thesis by blast
qed

theorem duplicate_check_variant_blind_witness:
  "input_entries [(''dA'', Valve (P 20)), (''dT'', Valve (P 11))] [] =
     (tagged ''fixed'' fixed @ [(''phosphoramidites'', ''dA'', Valve (P 20))])
       @ (''phosphoramidites'', ''dT'', Valve (P 11)) # []
   \<and> distinct (map fst (lowered ascii_lower
        (tagged ''fixed'' fixed @ [(''phosphoramidites'', ''dA'', Valve (P 20))])))
   \<and> distinct (pins_of (lowered ascii_lower
        (tagged ''fixed'' fixed @ [(''phosphoramidites'', ''dA'', Valve (P 20))])))
   \<and> P 11 \<in> set (pins_of fixed)
   \<and> Pinout_init ascii_lower [(''dA'', Valve (P 20)), (''dT'', Valve (P 11))] [] =
        Inl (ValueError (Valve (P 11)) ''phosphoramidites'' ''dT'')
   \<and> add_entries ascii_lower
        (tagged ''fixed'' fixed @ [(''phosphoramidites'', ''dA'', Valve (P 20))]) [] =
        Inr (fixed @ [(''da'', Valve (P 20))])
   \<and> (''pump'', Switch (P 11)) \<in> set (fixed @ [(''da'', Valve (P 20))])"
proof -
  let ?phos = "[(''dA'', Valve (P 20)), (''dT'', Valve (P 11))]"
  let ?mid = "[(''phosphoramidites'', ''dA'', Valve (P 20))]"
  let ?tbl = "fixed @ [(''da'', Valve (P 20))]"
  have s: "input_entries ?phos [] =
      (tagged ''fixed'' fixed @ ?mid) @ (''phosphoramidites'', ''dT'', Valve (P 11)) # []"
    by (simp add: input_entries_def tagged_def)
  have n: "distinct (map fst (lowered ascii_lower (tagged ''fixed'' fixed @ ?mid)))" by code_simp
  have p: "distinct (pins_of (lowered ascii_lower (tagged ''fixed'' fixed @ ?mid)))" by code_simp
  have f: "P 11 \<in> set (pins_of fixed)" by code_simp
  have t: "add_entries ascii_lower (tagged ''fixed'' fixed @ ?mid) [] = Inr ?tbl" by code_simp
  have m: "(''pump'', Switch (P 11)) \<in> set ?tbl" by (simp add: fixed_def)
  note th = duplicate_check_variant_blind
    [where lower = ascii_lower and phos = ?phos and reac = "[]" and mid = ?mid
       and pre = "tagged ''fixed'' fixed @ ?mid" and tbl = ?tbl and k = "''pump''"
       and category = "''phosphoramidites''" and name = "''dT''" and pin = "P 11" and post = "[]"]
  from th [THEN conjunct2, THEN conjunct2, THEN conjunct2, THEN conjunct1]
    conjI [OF s conjI [OF n conjI [OF p f]]]
  have r: "Pinout_init ascii_lower ?phos [] = Inl (ValueError (Valve (P 11)) ''phosphoramidites'' ''dT'')"
    by (rule mp)
  from th [THEN conjunct2, THEN conjunct2, THEN conjunct1]
    conjI [OF s conjI [OF t disjI1 [OF m]]]
  have "Pinout_init ascii_lower ?phos [] = Inl (ValueError (Valve (P 11)) ''phosphoramidites'' ''dT'')"
    by (rule mp)
  from s n p f r t m show ?thesis by (intro conjI)
qed

lemma lowered_entries:
  "lowered lower (entries self) = lower_keys lower (self_fixed self @ phosphoramidites self @ reactants self)"
  by (simp add: entries_def lowered_append lowered_tagged lower_keys_append)

lemma init_pinout_ok_iff:
  assumes "pinout self = []"
    and "distinct (map lower (dict_keys (self_fixed self @ phosphoramidites self @ reactants self)))"
  shows "\<not> isl (init_pinout lower self) \<longleftrightarrow>
     distinct (pins_of (self_fixed self @ phosphoramidites self @ reactants self))"
proof -
  from assms(2) have "distinct (map fst (lowered lower (entries self)))"
    by (simp add: lowered_entries keys_lower_keys)
  from add_entries_ok_iff [OF this]
  have "(\<exists>t'. add_entries lower (entries self) [] = Inr t') \<longleftrightarrow>
      distinct (pins_of (self_fixed self @ phosphoramidites self @ reactants self))"
    by (simp add: lowered_entries pins_of_lower_keys)
  moreover have "\<not> isl (init_pinout lower self) \<longleftrightarrow> (\<exists>t'. add_entries lower (entries self) [] = Inr t')"
    using assms(1) by (auto simp: init_pinout_entries split: sum.splits)
  ultimately show ?thesis by simp
qed

lemma distinct_map_mset:
  assumes "mset xs = mset ys"
  shows "distinct (map f xs) \<longleftrightarrow> distinct (map f ys)"
proof -
  from assms have "mset (map f xs) = mset (map f ys)" by simp
  then show ?thesis by (rule mset_eq_imp_distinct_iff)
qed

section \<open>The order of the walk\<close>

text \<open>
  Claim C8, as stated, fails: the same three names and devices, given in two insertion
  orders of the phosphoramidite map, succeed in one order and fail in the other. In the
  first order \<open>a\<close> replaces the binding of \<open>A\<close> before pin 20 is given again; in the second
  pin 20 is still in the table when \<open>b\<close> brings it.
\<close>

theorem order_dependence_counterexample:
  "mset [(''A'', Valve (P 20)), (''b'', Valve (P 20)), (''a'', Valve (P 21))] =
     mset [(''A'', Valve (P 20)), (''a'', Valve (P 21)), (''b'', Valve (P 20))]
   \<and> Pinout_init ascii_lower [(''A'', Valve (P 20)), (''a'', Valve (P 21)), (''b'', Valve (P 20))] [] =
     Inr \<lparr>self_fixed = fixed,
          phosphoramidites = [(''A'', Valve (P 20)), (''a'', Valve (P 21)), (''b'', Valve (P 20))],
          reactants = [],
          pinout =
            [(''waste'', Valve (P 7)), (''waste_rxn'', Valve (P 5)), (''prod'', Valve (P 8)),
             (''branch'', Valve (P 12)), (''rxn_out'', Valve (P 13)), (''sol'', Valve (P 3)),
             (''gas'', Valve (P 10)), (''pump'', Switch (P 11)), (''a'', Valve (P 21)),
             (''b'', Valve (P 20))]\<rparr>
   \<and> Pinout_init ascii_lower [(''A'', Valve (P 20)), (''b'', Valve (P 20)), (''a'', Valve (P 21))] [] =
     Inl (ValueError (Valve (P 20)) ''phosphoramidites'' ''b'')"
proof (intro conjI)
  show "mset [(''A'', Valve (P 20)), (''b'', Valve (P 20)), (''a'', Valve (P 21))] =
     mset [(''A'', Valve (P 20)), (''a'', Valve (P 21)), (''b'', Valve (P 20))]"
    by simp
qed code_simp+

text \<open>
  Claim C8, amended. When the lower-cased names of the entries of the three maps are
  pairwise distinct, whether construction succeeds does not depend on the order in which
  the items of each map are walked: it succeeds exactly when the pins of all the devices
  are pairwise distinct.
\<close>

theorem construction_order_independent:
  assumes "mset fx' = mset fx" and "mset phos' = mset phos" and "mset reac' = mset reac"
    and "distinct (map lower (dict_keys (fx @ phos @ reac)))"
  shows "isl (init_pinout lower \<lparr>self_fixed = fx', phosphoramidites = phos', reactants = reac', pinout = []\<rparr>)
       = isl (init_pinout lower \<lparr>self_fixed = fx, phosphoramidites = phos, reactants = reac, pinout = []\<rparr>)
     \<and> (\<not> isl (init_pinout lower \<lparr>self_fixed = fx, phosphoramidites = phos, reactants = reac, pinout = []\<rparr>)
          \<longleftrightarrow> distinct (pins_of (fx @ phos @ reac)))"
proof -
  from assms(1-3) have perm: "mset (fx' @ phos' @ reac') = mset (fx @ phos @ reac)" by simp
  have names': "distinct (map lower (dict_keys (fx' @ phos' @ reac')))"
    using distinct_map_mset [OF perm, of "lower \<circ> fst"] assms(4) by (simp add: dict_keys_def)
  have pins': "distinct (pins_of (fx' @ phos' @ reac')) \<longleftrightarrow> distinct (pins_of (fx @ phos @ reac))"
    unfolding pins_of_def using perm by (rule distinct_map_mset)
  have a: "\<not> isl (init_pinout lower \<lparr>self_fixed = fx, phosphoramidites = phos, reactants = reac, pinout = []\<rparr>)
      \<longleftrightarrow> distinct (pins_of (fx @ phos @ reac))"
    using init_pinout_ok_iff [where lower = lower and
        self = "\<lparr>self_fixed = fx, phosphoramidites = phos, reactants = reac, pinout = []\<rparr>"]
      assms(4) by simp
  have b: "\<not> isl (init_pinout lower \<lparr>self_fixed = fx', phosphoramidites = phos', reactants = reac', pinout = []\<rparr>)
      \<longleftrightarrow> distinct (pins_of (fx' @ phos' @ reac'))"
    using init_pinout_ok_iff [where lower = lower and
        self = "\<lparr>self_fixed = fx', phosphoramidites = phos', reactants = reac', pinout = []\<rparr>"]
      names' by simp
  from a b pins' show ?thesis by blast
qed

theorem construction_order_independent_witness:
  "mset (rev fixed) = mset fixed
   \<and> mset [(''dT'', Valve (P 21)), (''dA'', Valve (P 20))] = mset [(''dA'', Valve (P 20)), (''dT'', Valve (P 21))]
   \<and> mset [(''act'', Valve (P 22))] = mset [(''act'', Valve (P 22))]
   \<and> distinct (map ascii_lower (dict_keys
        (fixed @ [(''dA'', Valve (P 20)), (''dT'', Valve (P 21))] @ [(''act'', Valve (P 22))])))
   \<and> \<not> isl (Pinout_init ascii_lower [(''dA'', Valve (P 20)), (''dT'', Valve (P 21))] [(''act'', Valve (P 22))])
   \<and> \<not> isl (init_pinout ascii_lower \<lparr>self_fixed = rev fixed,
         phosphoramidites = [(''dT'', Valve (P 21)), (''dA'', Valve (P 20))],
         reactants = [(''act'', Valve (P 22))], pinout = []\<rparr>)"
proof -
  let ?phos = "[(''dA'', Valve (P 20)), (''dT'', Valve (P 21))]"
  let ?phos' = "[(''dT'', Valve (P 21)), (''dA'', Valve (P 20))]"
  let ?reac = "[(''act'', Valve (P 22))]"
  have p1: "mset (rev fixed) = mset fixed" by simp
  have p2: "mset ?phos' = mset ?phos" by simp
  have p3: "mset ?reac = mset ?reac" by simp
  have names: "distinct (map ascii_lower (dict_keys (fixed @ ?phos @ ?reac)))" by code_simp
  have ok: "\<not> isl (Pinout_init ascii_lower ?phos ?reac)" by code_simp
  from construction_order_independent [OF p1 p2 p3 names, THEN conjunct1] ok
  have "\<not> isl (init_pinout ascii_lower \<lparr>self_fixed = rev fixed, phosphoramidites = ?phos',
         reactants = ?reac, pinout = []\<rparr>)"
    by (simp add: Pinout_init_def)
  with p1 p2 p3 names ok show ?thesis by (intro conjI)
qed

lemma add_entries_prefix_ok:
  assumes "add_entries lower (pre @ post) t = Inr t'"
  shows "\<exists>t1. add_entries lower pre t = Inr t1 \<and> add_entries lower post t1 = Inr t'"
  using assms by (auto simp: add_entries_append split: sum.splits)

lemma add_entries_step_fails:
  assumes "add_entries lower pre t = Inr t1" and "add_pinout_safe lower t1 v c n = Inl e"
  shows "add_entries lower (pre @ (c, n, v) # post) t = Inl e"
  using assms by (simp add: add_entries_append)

section \<open>Failed construction\<close>

text \<open>
  Claim C9. Construction returns either an error or a registry, never a registry built
  from part of the entries. If the duplicate check rejects an entry after any number of
  entries were stored, the constructor raises that error and returns no registry,
  whatever entries follow. Conversely a registry that is returned is the table of the
  complete walk: the check passed at every entry, and the lower-cased name of every
  input entry is registered.
\<close>

theorem failed_construction_yields_no_registry:
  "(input_entries phos reac = pre @ (category, name, dev) # post
      \<and> add_entries lower pre [] = Inr tbl
      \<and> add_pinout_safe lower tbl dev category name = Inl e
    \<longrightarrow> Pinout_init lower phos reac = Inl e \<and> (\<forall>r. Pinout_init lower phos reac \<noteq> Inr r))
   \<and> (Pinout_init lower phos reac = Inr r
    \<longrightarrow> add_entries lower (input_entries phos reac) [] = Inr (pins r)
      \<and> (\<forall>pre' entry post'. input_entries phos reac = pre' @ entry # post'
            \<longrightarrow> (\<exists>tbl'. add_entries lower (pre' @ [entry]) [] = Inr tbl'))
      \<and> set (dict_keys (pins r)) = lower ` set (dict_keys (fixed @ phos @ reac)))"
proof -
  have a: "Pinout_init lower phos reac = Inl e \<and> (\<forall>r. Pinout_init lower phos reac \<noteq> Inr r)"
    if "input_entries phos reac = pre @ (category, name, dev) # post"
      and "add_entries lower pre [] = Inr tbl"
      and "add_pinout_safe lower tbl dev category name = Inl e"
  proof -
    from add_entries_step_fails [OF that(2,3)] that(1)
    have "Pinout_init lower phos reac = Inl e" by (simp add: Pinout_init_Inl)
    then show ?thesis by simp
  qed
  have b: "add_entries lower (input_entries phos reac) [] = Inr (pins r)
      \<and> (\<forall>pre' entry post'. input_entries phos reac = pre' @ entry # post'
            \<longrightarrow> (\<exists>tbl'. add_entries lower (pre' @ [entry]) [] = Inr tbl'))
      \<and> set (dict_keys (pins r)) = lower ` set (dict_keys (fixed @ phos @ reac))"
    if ok: "Pinout_init lower phos reac = Inr r"
  proof -
    from ok have run: "add_entries lower (input_entries phos reac) [] = Inr (pins r)"
      by (simp add: Pinout_init_Inr pins_def)
    have "\<exists>tbl'. add_entries lower (pre' @ [entry]) [] = Inr tbl'"
      if "input_entries phos reac = pre' @ entry # post'" for pre' entry post'
    proof -
      from run that have "add_entries lower ((pre' @ [entry]) @ post') [] = Inr (pins r)" by simp
      from add_entries_prefix_ok [OF this] show ?thesis by blast
    qed
    with run registry_facts(3) [OF ok] show ?thesis by blast
  qed
  from a b show ?thesis by blast
qed

theorem failed_construction_yields_no_registry_witness:
  "input_entries [(''dA'', Valve (P 20)), (''dT'', Valve (P 7)), (''dG'', Valve (P 22))] [] =
     (tagged ''fixed'' fixed @ [(''phosphoramidites'', ''dA'', Valve (P 20))])
       @ (''phosphoramidites'', ''dT'', Valve (P 7))
       # [(''phosphoramidites'', ''dG'', Valve (P 22))]
   \<and> add_entries ascii_lower (tagged ''fixed'' fixed @ [(''phosphoramidites'', ''dA'', Valve (P 20))]) [] =
       Inr (lower_keys ascii_lower (fixed @ [(''dA'', Valve (P 20))]))
   \<and> add_pinout_safe ascii_lower (lower_keys ascii_lower (fixed @ [(''dA'', Valve (P 20))])) (Valve (P 7))
        ''phosphoramidites'' ''dT'' = Inl (ValueError (Valve (P 7)) ''phosphoramidites'' ''dT'')
   \<and> Pinout_init ascii_lower [(''dA'', Valve (P 20)), (''dT'', Valve (P 7)), (''dG'', Valve (P 22))] [] =
       Inl (ValueError (Valve (P 7)) ''phosphoramidites'' ''dT'')
   \<and> Pinout_init ascii_lower [(''dA'', Valve (P 20))] [] = Inr (projr (Pinout_init ascii_lower [(''dA'', Valve (P 20))] []))
   \<and> set (dict_keys (pins (projr (Pinout_init ascii_lower [(''dA'', Valve (P 20))] [])))) =
       ascii_lower ` set (dict_keys (fixed @ [(''dA'', Valve (P 20))] @ []))"
proof -
  let ?phos = "[(''dA'', Valve (P 20)), (''dT'', Valve (P 7)), (''dG'', Valve (P 22))]"
  let ?pre = "tagged ''fixed'' fixed @ [(''phosphoramidites'', ''dA'', Valve (P 20))]"
  let ?tbl = "lower_keys ascii_lower (fixed @ [(''dA'', Valve (P 20))])"
  let ?e = "ValueError (Valve (P 7)) ''phosphoramidites'' ''dT''"
  let ?r = "projr (Pinout_init ascii_lower [(''dA'', Valve (P 20))] [])"
  have split: "input_entries ?phos [] =
      ?pre @ (''phosphoramidites'', ''dT'', Valve (P 7)) # [(''phosphoramidites'', ''dG'', Valve (P 22))]"
    by (simp add: input_entries_def tagged_def)
  have pre: "add_entries ascii_lower ?pre [] = Inr ?tbl" by code_simp
  have step: "add_pinout_safe ascii_lower ?tbl (Valve (P 7)) ''phosphoramidites'' ''dT'' = Inl ?e"
    by code_simp
  have ok: "Pinout_init ascii_lower [(''dA'', Valve (P 20))] [] = Inr ?r" by code_simp
  from split pre step
  have h: "input_entries ?phos [] =
      ?pre @ (''phosphoramidites'', ''dT'', Valve (P 7)) # [(''phosphoramidites'', ''dG'', Valve (P 22))]
      \<and> add_entries ascii_lower ?pre [] = Inr ?tbl
      \<and> add_pinout_safe ascii_lower ?tbl (Valve (P 7)) ''phosphoramidites'' ''dT'' = Inl ?e"
    by (intro conjI)
  from failed_construction_yields_no_registry
    [where lower = ascii_lower and phos = ?phos and reac = "[]" and pre = ?pre
       and category = "''phosphoramidites''" and name = "''dT''" and dev = "Valve (P 7)"
       and post = "[(''phosphoramidites'', ''dG'', Valve (P 22))]" and tbl = ?tbl and e = ?e,
     THEN conjunct1] h
  have "Pinout_init ascii_lower ?phos [] = Inl ?e \<and> (\<forall>r. Pinout_init ascii_lower ?phos [] \<noteq> Inr r)"
    by (rule mp)
  then have fail: "Pinout_init ascii_lower ?phos [] = Inl ?e" ..
  from failed_construction_yields_no_registry
    [where lower = ascii_lower and phos = "[(''dA'', Valve (P 20))]" and reac = "[]" and r = ?r,
     THEN conjunct2] ok
  have "add_entries ascii_lower (input_entries [(''dA'', Valve (P 20))] []) [] = Inr (pins ?r)
      \<and> (\<forall>pre' entry post'. input_entries [(''dA'', Valve (P 20))] [] = pre' @ entry # post'
            \<longrightarrow> (\<exists>tbl'. add_entries ascii_lower (pre' @ [entry]) [] = Inr tbl'))
      \<and> set (dict_keys (pins ?r)) = ascii_lower ` set (dict_keys (fixed @ [(''dA'', Valve (P 20))] @ []))"
    by (rule mp)
  then have ks: "set (dict_keys (pins ?r)) = ascii_lower ` set (dict_keys (fixed @ [(''dA'', Valve (P 20))] @ []))"
    by (elim conjE)
  from split pre step fail ok ks show ?thesis by (intro conjI)
qed

lemma later_binding_wins:
  assumes "k \<in> fst ` set later"
  shows "\<exists>v. map_of (rev (earlier @ later)) k = Some v \<and> (k, v) \<in> set later"
proof -
  from assms have "map_of (rev later) k \<noteq> None"
    by (simp add: map_of_eq_None_iff)
  then obtain v where v: "map_of (rev later) k = Some v" by blast
  then have "(k, v) \<in> set later" using map_of_SomeD [of "rev later" k v] by simp
  moreover from v have "map_of (rev (earlier @ later)) k = Some v"
    by (simp add: map_add_def)
  ultimately show ?thesis by blast
qed

lemma lower_keys_Cons: "lower_keys lower ((n, v) # d) = (lower n, v) # lower_keys lower d"
  by (simp add: lower_keys_def)

lemma lower_keys_pin: "(k, w) \<in> set (lower_keys lower d) \<Longrightarrow> gpio_pin w \<in> set (pins_of d)"
  by (force simp: lower_keys_def pins_of_def)

lemma lower_keys_key: "k \<in> fst ` set (lower_keys lower d) \<longleftrightarrow> k \<in> lower ` set (dict_keys d)"
  using keys_lower_keys [of lower d] by (metis set_map)

lemma get_map_of: "map_of (pins r) (lower n) = Some d \<Longrightarrow> get lower r n = Inr d"
  by (simp add: get_def pins_def)

lemma distinct_pins_succeeds:
  assumes "distinct (pins_of (fixed @ phos @ reac))"
  shows "\<exists>r. Pinout_init lower phos reac = Inr r"
proof -
  from assms have "distinct (pins_of (lowered lower (input_entries phos reac)))"
    by (simp add: lowered_input_entries pins_of_lower_keys)
  then have "\<exists>t'. add_entries lower (input_entries phos reac) [] = Inr t'"
    by (rule add_entries_succeeds) (simp add: pins_of_def)
  then obtain t where "add_entries lower (input_entries phos reac) [] = Inr t" ..
  then have "Pinout_init lower phos reac =
      Inr \<lparr>self_fixed = fixed, phosphoramidites = phos, reactants = reac, pinout = t\<rparr>"
    by (simp add: Pinout_init_Inr)
  then show ?thesis ..
qed

lemma lowered_map_snd: "lowered lower es = lower_keys lower (map snd es)"
  by (simp add: lowered_def lower_keys_def case_prod_unfold)

lemma map_snd_input_entries: "map snd (input_entries phos reac) = fixed @ phos @ reac"
  by (simp add: input_entries_def tagged_def case_prod_unfold comp_def)

lemma setitem_mem: "(k, v) \<in> set (setitem d k v)"
  by (induction d) auto

lemma distinct_pins_same_entry:
  assumes "distinct (pins_of t)" and "(k, w) \<in> set t" and "(k', w') \<in> set t"
    and "gpio_pin w = gpio_pin w'"
  shows "k = k' \<and> w = w'"
proof -
  from assms(1) have "inj_on (gpio_pin \<circ> snd) (set t)"
    by (simp add: pins_of_def distinct_map)
  from inj_onD [OF this, of "(k, w)" "(k', w')"] assms(2-4) show ?thesis by simp
qed

text \<open>
  An entry whose lower-cased name comes again later, and whose pin no later entry
  carries, has lost its binding and its pin in the registry.
\<close>

lemma replaced_binding:
  assumes ok: "Pinout_init lower phos reac = Inr r"
    and split: "fixed @ phos @ reac = xs @ (n1, d1) # rest"
    and again: "lower n1 \<in> lower ` set (dict_keys rest)"
    and gone: "gpio_pin d1 \<notin> set (pins_of rest)"
  shows "gpio_pin d1 \<notin> set (pins_of (pins r))" and "get lower r n1 \<noteq> Inr d1"
proof -
  note facts = registry_facts [OF ok]
  from ok have run: "add_entries lower (input_entries phos reac) [] = Inr (pins r)"
    by (simp add: Pinout_init_Inr pins_def)
  from split have "map snd (input_entries phos reac) = xs @ (n1, d1) # rest"
    by (simp only: map_snd_input_entries)
  then obtain xs' e rest' where es: "input_entries phos reac = xs' @ e # rest'"
    and e: "snd e = (n1, d1)" and rest': "map snd rest' = rest"
    by (auto simp: map_eq_append_conv map_eq_Cons_conv)
  obtain c where e_eq: "e = (c, n1, d1)" using e by (cases e) auto
  have low_rest: "lowered lower rest' = lower_keys lower rest"
    by (simp add: lowered_map_snd rest')
  from run es e_eq have "add_entries lower (xs' @ (c, n1, d1) # rest') [] = Inr (pins r)" by simp
  then obtain t0 t1 where t0: "add_entries lower xs' [] = Inr t0"
    and t1: "add_pinout_safe lower t0 d1 c n1 = Inr t1"
    and fin: "add_entries lower rest' t1 = Inr (pins r)"
    by (auto simp: add_entries_append split: sum.splits)
  from add_entries_distinct_pins [OF t0] have "distinct (pins_of t0)" by (simp add: pins_of_def)
  with t1 have d_t1: "distinct (pins_of t1)" and in_t1: "(lower n1, d1) \<in> set t1"
    by (auto simp: add_pinout_safe_Inr distinct_pins_setitem setitem_mem)
  have tbl: "map_of (pins r) = map_of t1 ++ map_of (rev (lower_keys lower rest))"
    using add_entries_map_of [OF fin] by (simp only: low_rest)
  have key: "lower n1 \<in> fst ` set (lower_keys lower rest)"
    using again by (simp add: lower_keys_key)
  have later_val: "\<exists>v. map_of (pins r) k = Some v \<and> (k, v) \<in> set (lower_keys lower rest)"
    if "k \<in> fst ` set (lower_keys lower rest)" for k
    using later_binding_wins [OF that, of "[]"] by (auto simp: tbl map_add_def)
  from later_val [OF key] obtain v where v: "map_of (pins r) (lower n1) = Some v"
    and v_in: "(lower n1, v) \<in> set (lower_keys lower rest)" by blast
  from lower_keys_pin [OF v_in] gone have neq: "v \<noteq> d1" by auto
  from get_map_of [where lower = lower and n = n1, OF v] neq
  show "get lower r n1 \<noteq> Inr d1" by simp
  show "gpio_pin d1 \<notin> set (pins_of (pins r))"
  proof
    assume "gpio_pin d1 \<in> set (pins_of (pins r))"
    then obtain k w where kw: "(k, w) \<in> set (pins r)" and pin: "gpio_pin w = gpio_pin d1"
      by (auto simp: pins_of_def)
    from facts(2) kw have bound: "map_of (pins r) k = Some w" by (simp add: dict_keys_def)
    show False
    proof (cases "k \<in> fst ` set (lower_keys lower rest)")
      case True
      from later_val [OF True] bound have "(k, w) \<in> set (lower_keys lower rest)" by auto
      from lower_keys_pin [OF this] pin gone show False by simp
    next
      case False
      then have "map_of (rev (lower_keys lower rest)) k = None"
        by (simp add: map_of_eq_None_iff)
      with bound have "map_of t1 k = Some w" by (simp add: tbl map_add_def)
      then have "(k, w) \<in> set t1" by (rule map_of_SomeD)
      from distinct_pins_same_entry [OF d_t1 this in_t1 pin] have "k = lower n1" by simp
      with key False show False by simp
    qed
  qed
qed

lemma last_binding:
  assumes ok: "Pinout_init lower phos reac = Inr r"
    and split: "fixed @ phos @ reac = xs @ (n2, d2) # zs"
    and last: "lower n2 \<notin> lower ` set (dict_keys zs)"
  shows "get lower r n2 = Inr d2"
proof -
  have "lower n2 \<in> fst ` set (lower_keys lower ((n2, d2) # zs))"
    by (simp add: lower_keys_Cons)
  from later_binding_wins [OF this, of "lower_keys lower xs"]
  obtain v where v: "map_of (rev (lower_keys lower xs @ lower_keys lower ((n2, d2) # zs))) (lower n2) = Some v"
    and v_in: "(lower n2, v) \<in> set (lower_keys lower ((n2, d2) # zs))" by blast
  from last have "lower n2 \<notin> fst ` set (lower_keys lower zs)" by (simp add: lower_keys_key)
  with v_in have "v = d2" by (force simp: lower_keys_Cons)
  moreover have "map_of (pins r) = map_of (rev (lower_keys lower xs @ lower_keys lower ((n2, d2) # zs)))"
    using registry_facts(5) [OF ok] split by (simp only: lower_keys_append)
  ultimately have "map_of (pins r) (lower n2) = Some d2" using v by simp
  then show ?thesis by (rule get_map_of)
qed

section \<open>Repeated names\<close>

text \<open>
  Claim C10, as stated, fails in one part: the pin of the earlier entry can be in the
  final registry, when a later entry carries it again. \<open>A\<close> is bound to pin 20, \<open>a\<close>
  replaces the binding with pin 21, and \<open>b\<close> then brings pin 20 back: construction
  succeeds and pin 20 is in the table.
\<close>

theorem earlier_pin_present_counterexample:
  "ascii_lower ''A'' = ascii_lower ''a''
   \<and> gpio_pin (Valve (P 20)) \<noteq> gpio_pin (Valve (P 21))
   \<and> Pinout_init ascii_lower [(''A'', Valve (P 20))] [(''a'', Valve (P 21)), (''b'', Valve (P 20))] =
     Inr \<lparr>self_fixed = fixed,
          phosphoramidites = [(''A'', Valve (P 20))],
          reactants = [(''a'', Valve (P 21)), (''b'', Valve (P 20))],
          pinout =
            [(''waste'', Valve (P 7)), (''waste_rxn'', Valve (P 5)), (''prod'', Valve (P 8)),
             (''branch'', Valve (P 12)), (''rxn_out'', Valve (P 13)), (''sol'', Valve (P 3)),
             (''gas'', Valve (P 10)), (''pump'', Switch (P 11)), (''a'', Valve (P 21)),
             (''b'', Valve (P 20))]\<rparr>
   \<and> P 20 \<in> set (pins_of (pins (projr
        (Pinout_init ascii_lower [(''A'', Valve (P 20))] [(''a'', Valve (P 21)), (''b'', Valve (P 20))]))))"
  by code_simp

text \<open>
  Claim C10, amended. A repeated name is never an error; only a repeated pin is: a
  construction that fails has a repeated pin among its input devices, and when the pins
  of all input devices are pairwise distinct construction succeeds whatever the names.
  In a successful construction every lower-cased name is bound to the device of the
  last entry that carries it. For two entries with the same lower-cased name, both names
  return the later entry's device if no entry after it carries the name again; and if no
  entry after the earlier one carries the earlier entry's pin, the earlier device is not
  what its name returns and its pin is in no entry of the table.
\<close>

theorem repeated_name_replaces_binding:
  "(distinct (pins_of (fixed @ phos @ reac)) \<longrightarrow> (\<exists>r. Pinout_init lower phos reac = Inr r))
   \<and> (\<forall>e. Pinout_init lower phos reac = Inl e \<longrightarrow> \<not> distinct (pins_of (fixed @ phos @ reac)))
   \<and> (Pinout_init lower phos reac = Inr r \<longrightarrow>
        map_of (pins r) = map_of (rev (lower_keys lower (fixed @ phos @ reac)))
        \<and> (\<forall>xs n1 d1 ys n2 d2 zs.
              fixed @ phos @ reac = xs @ (n1, d1) # ys @ (n2, d2) # zs \<and> lower n1 = lower n2
              \<longrightarrow> (lower n2 \<notin> lower ` set (dict_keys zs)
                     \<longrightarrow> get lower r n1 = Inr d2 \<and> get lower r n2 = Inr d2)
                \<and> (gpio_pin d1 \<notin> set (pins_of (ys @ (n2, d2) # zs))
                     \<longrightarrow> gpio_pin d1 \<notin> set (pins_of (pins r)) \<and> get lower r n1 \<noteq> Inr d1)))"
proof -
  have a: "\<exists>r. Pinout_init lower phos reac = Inr r" if "distinct (pins_of (fixed @ phos @ reac))"
    using distinct_pins_succeeds [where lower = lower, OF that] .
  have b: "\<not> distinct (pins_of (fixed @ phos @ reac))" if "Pinout_init lower phos reac = Inl e" for e
  proof
    assume "distinct (pins_of (fixed @ phos @ reac))"
    from distinct_pins_succeeds [where lower = lower, OF this] that show False by auto
  qed
  have c: "(lower n2 \<notin> lower ` set (dict_keys zs)
             \<longrightarrow> get lower r n1 = Inr d2 \<and> get lower r n2 = Inr d2)
        \<and> (gpio_pin d1 \<notin> set (pins_of (ys @ (n2, d2) # zs))
             \<longrightarrow> gpio_pin d1 \<notin> set (pins_of (pins r)) \<and> get lower r n1 \<noteq> Inr d1)"
    if ok: "Pinout_init lower phos reac = Inr r"
      and split: "fixed @ phos @ reac = xs @ (n1, d1) # ys @ (n2, d2) # zs"
      and same: "lower n1 = lower n2"
    for xs n1 d1 ys n2 d2 zs
  proof -
    have again: "lower n1 \<in> lower ` set (dict_keys (ys @ (n2, d2) # zs))"
      using same by (simp add: dict_keys_def)
    from split have split2: "fixed @ phos @ reac = (xs @ (n1, d1) # ys) @ (n2, d2) # zs" by simp
    have "get lower r n1 = Inr d2 \<and> get lower r n2 = Inr d2"
      if "lower n2 \<notin> lower ` set (dict_keys zs)"
    proof -
      from last_binding [OF ok split2 that] have g2: "get lower r n2 = Inr d2" .
      from get_same_device [OF same g2] g2 show ?thesis by simp
    qed
    moreover have "gpio_pin d1 \<notin> set (pins_of (pins r)) \<and> get lower r n1 \<noteq> Inr d1"
      if "gpio_pin d1 \<notin> set (pins_of (ys @ (n2, d2) # zs))"
      using replaced_binding [OF ok split again that] by blast
    ultimately show ?thesis by blast
  qed
  have d: "map_of (pins r) = map_of (rev (lower_keys lower (fixed @ phos @ reac)))"
    if "Pinout_init lower phos reac = Inr r"
    using registry_facts(5) [OF that] .
  from a b c d show ?thesis by blast
qed

theorem repeated_name_replaces_binding_witness:
  "distinct (pins_of (fixed @ [(''Waste'', Valve (P 20))] @ []))
   \<and> fixed @ [(''Waste'', Valve (P 20))] @ [] =
       [] @ (''waste'', Valve (P 7)) # tl fixed @ (''Waste'', Valve (P 20)) # []
   \<and> ascii_lower ''waste'' = ascii_lower ''Waste''
   \<and> Pinout_init ascii_lower [(''Waste'', Valve (P 20))] [] =
       Inr (projr (Pinout_init ascii_lower [(''Waste'', Valve (P 20))] []))
   \<and> P 7 \<notin> set (pins_of (pins (projr (Pinout_init ascii_lower [(''Waste'', Valve (P 20))] []))))
   \<and> get ascii_lower (projr (Pinout_init ascii_lower [(''Waste'', Valve (P 20))] [])) ''waste'' =
       Inr (Valve (P 20))"
proof -
  let ?phos = "[(''Waste'', Valve (P 20))]"
  let ?r = "projr (Pinout_init ascii_lower ?phos [])"
  have dist: "distinct (pins_of (fixed @ ?phos @ []))" by code_simp
  have split: "fixed @ ?phos @ [] = [] @ (''waste'', Valve (P 7)) # tl fixed @ (''Waste'', Valve (P 20)) # []"
    by (simp add: fixed_def)
  have same: "ascii_lower ''waste'' = ascii_lower ''Waste''" by code_simp
  have last: "ascii_lower ''Waste'' \<notin> ascii_lower ` set (dict_keys ([] :: Switchable dict))"
    by (simp add: dict_keys_def)
  have gone: "gpio_pin (Valve (P 7)) \<notin> set (pins_of (tl fixed @ (''Waste'', Valve (P 20)) # []))"
    by (simp add: fixed_def pins_of_def)
  note th = repeated_name_replaces_binding
    [where lower = ascii_lower and phos = ?phos and reac = "[]" and r = ?r]
  from th [THEN conjunct1] dist have "\<exists>r. Pinout_init ascii_lower ?phos [] = Inr r" by (rule mp)
  then have ok: "Pinout_init ascii_lower ?phos [] = Inr ?r" by auto
  from th [THEN conjunct2, THEN conjunct2] ok
  have "map_of (pins ?r) = map_of (rev (lower_keys ascii_lower (fixed @ ?phos @ [])))
        \<and> (\<forall>xs n1 d1 ys n2 d2 zs.
              fixed @ ?phos @ [] = xs @ (n1, d1) # ys @ (n2, d2) # zs \<and> ascii_lower n1 = ascii_lower n2
              \<longrightarrow> (ascii_lower n2 \<notin> ascii_lower ` set (dict_keys zs)
                     \<longrightarrow> get ascii_lower ?r n1 = Inr d2 \<and> get ascii_lower ?r n2 = Inr d2)
                \<and> (gpio_pin d1 \<notin> set (pins_of (ys @ (n2, d2) # zs))
                     \<longrightarrow> gpio_pin d1 \<notin> set (pins_of (pins ?r)) \<and> get ascii_lower ?r n1 \<noteq> Inr d1))"
    by (rule mp)
  then have repl: "\<forall>xs n1 d1 ys n2 d2 zs.
              fixed @ ?phos @ [] = xs @ (n1, d1) # ys @ (n2, d2) # zs \<and> ascii_lower n1 = ascii_lower n2
              \<longrightarrow> (ascii_lower n2 \<notin> ascii_lower ` set (dict_keys zs)
                     \<longrightarrow> get ascii_lower ?r n1 = Inr d2 \<and> get ascii_lower ?r n2 = Inr d2)
                \<and> (gpio_pin d1 \<notin> set (pins_of (ys @ (n2, d2) # zs))
                     \<longrightarrow> gpio_pin d1 \<notin> set (pins_of (pins ?r)) \<and> get ascii_lower ?r n1 \<noteq> Inr d1)"
    by (rule conjunct2)
  note inst = repl [THEN spec [where x = "[]"], THEN spec [where x = "''waste''"],
      THEN spec [where x = "Valve (P 7)"], THEN spec [where x = "tl fixed"],
      THEN spec [where x = "''Waste''"], THEN spec [where x = "Valve (P 20)"],
      THEN spec [where x = "[]"], THEN mp, OF conjI [OF split same]]
  from inst [THEN conjunct1] last
  have "get ascii_lower ?r ''waste'' = Inr (Valve (P 20)) \<and> get ascii_lower ?r ''Waste'' = Inr (Valve (P 20))"
    by (rule mp)
  then have g: "get ascii_lower ?r ''waste'' = Inr (Valve (P 20))" ..
  from inst [THEN conjunct2] gone
  have "gpio_pin (Valve (P 7)) \<notin> set (pins_of (pins ?r)) \<and> get ascii_lower ?r ''waste'' \<noteq> Inr (Valve (P 7))"
    by (rule mp)
  then have "gpio_pin (Valve (P 7)) \<notin> set (pins_of (pins ?r))" ..
  then have p: "P 7 \<notin> set (pins_of (pins ?r))" by simp
  from dist split same ok p g show ?thesis by (intro conjI)
qed

end
